theory Spec2Isabelle
  imports Complex_Main "HOL-Library.Log_Nat" "HOL-Library.Multiset"
begin

section \<open>Data model of \<^verbatim>\<open>app.py\<close>\<close>

text \<open>
  The four tables of the application. A nullable \<^verbatim>\<open>Integer\<close> column is an
  \<open>int option\<close>, a nullable string column a \<open>string option\<close>. Python tests such
  columns with \<^verbatim>\<open>if x:\<close> and \<^verbatim>\<open>if not x:\<close>, where both \<^verbatim>\<open>None\<close> and \<^verbatim>\<open>0\<close> are
  false: \<open>truthy\<close> is that test.
\<close>

record ring =
  ring_ident :: int
  ring_name :: string

record division =
  div_ident :: int
  div_name :: string

record competitor =
  comp_id :: int
  comp_name :: string
  comp_division_id :: int

record match =
  match_id :: int
  division_id :: int
  ring_id :: "int option"
  competitor1_id :: "int option"
  competitor2_id :: "int option"
  winner_id :: "int option"
  next_match_id :: "int option"
  match_number :: "int option"
  status :: "string option"
  round_name :: "string option"

text \<open>
  The persistent store: every table is the list of its rows in insertion order. A
  handler works on its session's copy of the rows; only \<^verbatim>\<open>db.session.commit()\<close>
  makes the copy the store, and a handler that returns (or raises) without committing
  leaves the store as it found it. Each handler below therefore returns its response
  together with the store after the request.
\<close>

record db =
  rings :: "ring list"
  divisions :: "division list"
  competitors :: "competitor list"
  matches :: "match list"

datatype response = OK | BadRequest | NotFound | ServerError

datatype py_error = IndexError | ZeroDivisionError | AttributeError | ValueError

definition truthy :: "int option \<Rightarrow> bool" where
  "truthy x = (case x of None \<Rightarrow> False | Some v \<Rightarrow> v \<noteq> 0)"

text \<open>
  An \<^verbatim>\<open>Integer\<close> column of the store holds a signed 64-bit value. Python's integers
  are unbounded: a request can carry an id outside that range, and writing it to a
  column raises \<^verbatim>\<open>OverflowError\<close> when the session is flushed, before anything is
  committed.
\<close>

definition storable :: "int option \<Rightarrow> bool" where
  "storable x = (case x of None \<Rightarrow> True | Some v \<Rightarrow> - (2 ^ 63) \<le> v \<and> v < 2 ^ 63)"

text \<open>\<^verbatim>\<open>Match.query.get(i)\<close>, and an attribute assignment on the row object with id \<open>i\<close>.\<close>

definition get_match :: "int \<Rightarrow> match list \<Rightarrow> match option" where
  "get_match i ms = find (\<lambda>m. match_id m = i) ms"

definition update_match :: "int \<Rightarrow> (match \<Rightarrow> match) \<Rightarrow> match list \<Rightarrow> match list" where
  "update_match i f ms = map (\<lambda>m. if match_id m = i then f m else m) ms"

definition get_competitor :: "int \<Rightarrow> competitor list \<Rightarrow> competitor option" where
  "get_competitor i cs = find (\<lambda>c. comp_id c = i) cs"

definition get_division :: "int \<Rightarrow> division list \<Rightarrow> division option" where
  "get_division i ds = find (\<lambda>x. div_ident x = i) ds"

section \<open>Recording a result\<close>

text \<open>
  The block both result handlers share (\<^verbatim>\<open># --- BRACKET ADVANCEMENT LOGIC ---\<close>,
  lines 114-121 and 605-612): \<open>mid\<close> is the decided match, whose winner has just been
  assigned in \<open>ms\<close>. \<^verbatim>\<open>Match.query.get\<close> of a dangling \<^verbatim>\<open>next_match_id\<close> gives
  \<^verbatim>\<open>None\<close>, and reading its slot raises.
\<close>

definition bracket_advancement :: "match \<Rightarrow> match list \<Rightarrow> py_error + match list" where
  "bracket_advancement m ms =
     (case next_match_id m of
        None \<Rightarrow> Inr ms
      | Some nid \<Rightarrow>
          if nid = 0 then Inr ms
          else (case get_match nid ms of
                  None \<Rightarrow> Inl AttributeError
                | Some next_match \<Rightarrow>
                    if \<not> truthy (competitor1_id next_match)
                    then Inr (update_match nid (\<lambda>x. x\<lparr>competitor1_id := winner_id m\<rparr>) ms)
                    else if \<not> truthy (competitor2_id next_match)
                    then Inr (update_match nid (\<lambda>x. x\<lparr>competitor2_id := winner_id m\<rparr>) ms)
                    else Inr ms))"

text \<open>
  \<^verbatim>\<open>record_result\<close> (lines 98-124), the JSON endpoint. \<open>st\<close> and \<open>w\<close> are
  \<^verbatim>\<open>data.get("status")\<close> and \<^verbatim>\<open>data.get("winner_id")\<close>. The status is assigned
  before the winner is checked, on the session's copy. A winner id the store cannot
  hold makes the flush raise: a server error, nothing committed. With a status other than
  \<^verbatim>\<open>Completed\<close> or \<^verbatim>\<open>Disqualification\<close> the function runs off its end: it never
  commits and returns \<^verbatim>\<open>None\<close>, which the framework answers with a server error.
\<close>

definition record_result :: "int \<Rightarrow> string option \<Rightarrow> int option \<Rightarrow> db \<Rightarrow> response \<times> db" where
  "record_result mid st w d =
     (case get_match mid (matches d) of
        None \<Rightarrow> (NotFound, d)
      | Some m0 \<Rightarrow>
          let ms1 = update_match mid (\<lambda>x. x\<lparr>status := st\<rparr>) (matches d) in
          if st = Some ''Completed'' \<or> st = Some ''Disqualification'' then
            if \<not> truthy w then (BadRequest, d)
            else if \<not> storable w then (ServerError, d)
            else
              let ms2 = update_match mid (\<lambda>x. x\<lparr>winner_id := w\<rparr>) ms1 in
              (case bracket_advancement (m0\<lparr>status := st, winner_id := w\<rparr>) ms2 of
                 Inl e \<Rightarrow> (ServerError, d)
               | Inr ms3 \<Rightarrow> (OK, d\<lparr>matches := ms3\<rparr>))
          else (ServerError, d))"

text \<open>
  \<^verbatim>\<open>ui_record_result\<close> (lines 581-624), the form endpoint. Form values are strings:
  \<open>w\<close> is absent (\<open>None\<close>) or text, and \<^verbatim>\<open>not winner_id\<close> holds for absent and for
  empty text. The builtin \<^verbatim>\<open>int\<close> is the parameter \<open>py_int\<close>, \<open>None\<close> where it
  raises \<^verbatim>\<open>ValueError\<close>; a number the store cannot hold fails at the flush as on the
  JSON endpoint. After the commit the handler reads the winner's name for its
  reply, which raises when no such competitor exists: the reply is then a server error
  and the store stays committed.
\<close>

definition ui_record_result ::
    "(string \<Rightarrow> int option) \<Rightarrow> int \<Rightarrow> string option \<Rightarrow> string option \<Rightarrow> db \<Rightarrow> response \<times> db" where
  "ui_record_result py_int mid st w d =
     (case get_match mid (matches d) of
        None \<Rightarrow> (NotFound, d)
      | Some m0 \<Rightarrow>
          let ms1 = update_match mid (\<lambda>x. x\<lparr>status := st\<rparr>) (matches d) in
          if st = Some ''In Progress'' then (OK, d\<lparr>matches := ms1\<rparr>)
          else if st = Some ''Completed'' \<or> st = Some ''Disqualification'' then
            (case w of
               None \<Rightarrow> (BadRequest, d)
             | Some txt \<Rightarrow>
                 if txt = [] then (BadRequest, d)
                 else (case py_int txt of
                         None \<Rightarrow> (ServerError, d)
                       | Some wid \<Rightarrow>
                           if \<not> storable (Some wid) then (ServerError, d)
                           else
                             let ms2 = update_match mid (\<lambda>x. x\<lparr>winner_id := Some wid\<rparr>) ms1 in
                             (case bracket_advancement (m0\<lparr>status := st, winner_id := Some wid\<rparr>) ms2 of
                                Inl e \<Rightarrow> (ServerError, d)
                              | Inr ms3 \<Rightarrow>
                                  (case get_competitor wid (competitors d) of
                                     None \<Rightarrow> (ServerError, d\<lparr>matches := ms3\<rparr>)
                                   | Some winner \<Rightarrow> (OK, d\<lparr>matches := ms3\<rparr>)))))
          else (ServerError, d))"

text \<open>
  The table both handlers commit for a decided match \<open>mid\<close> whose next match \<open>nid\<close>
  exists with row \<open>nm\<close>: their three assignments in the order of the source.
\<close>

definition decided_rows :: "int \<Rightarrow> string option \<Rightarrow> int \<Rightarrow> int \<Rightarrow> match \<Rightarrow> match list \<Rightarrow> match list" where
  "decided_rows mid st wid nid nm ms =
     (let ms2 = update_match mid (\<lambda>x. x\<lparr>winner_id := Some wid\<rparr>)
                  (update_match mid (\<lambda>x. x\<lparr>status := st\<rparr>) ms)
      in if \<not> truthy (competitor1_id nm)
         then update_match nid (\<lambda>x. x\<lparr>competitor1_id := Some wid\<rparr>) ms2
         else if \<not> truthy (competitor2_id nm)
         then update_match nid (\<lambda>x. x\<lparr>competitor2_id := Some wid\<rparr>) ms2
         else ms2)"

section \<open>Deleting a division\<close>

text \<open>
  \<^verbatim>\<open>ui_delete_division\<close> (lines 455-465): the handler deletes the division's matches
  and competitors with two bulk deletes, then the division, and commits.
\<close>

definition ui_delete_division :: "int \<Rightarrow> db \<Rightarrow> response \<times> db" where
  "ui_delete_division div_id d =
     (case get_division div_id (divisions d) of
        None \<Rightarrow> (NotFound, d)
      | Some dv \<Rightarrow>
          let d1 = d\<lparr>matches := filter (\<lambda>m. division_id m \<noteq> div_id) (matches d)\<rparr>;
              d2 = d1\<lparr>competitors := filter (\<lambda>c. comp_division_id c \<noteq> div_id) (competitors d1)\<rparr>;
              d3 = d2\<lparr>divisions := filter (\<lambda>x. div_ident x \<noteq> div_id) (divisions d2)\<rparr>
          in (OK, d3))"

text \<open>
  \<^verbatim>\<open>edit_division\<close> with method \<^verbatim>\<open>DELETE\<close> (lines 84-90): the handler deletes only
  the division object and commits. The relationships of \<^verbatim>\<open>Division\<close> (lines 23-24)
  declare no delete cascade and both foreign keys are \<^verbatim>\<open>nullable=False\<close> (lines 30
  and 35): the session detaches the children of a deleted parent by clearing their
  foreign key, which the store refuses, so with any child row the commit raises and
  nothing is deleted. Without children the division row is removed.
\<close>

definition edit_division_delete :: "int \<Rightarrow> db \<Rightarrow> response \<times> db" where
  "edit_division_delete div_id d =
     (case get_division div_id (divisions d) of
        None \<Rightarrow> (NotFound, d)
      | Some dv \<Rightarrow>
          if filter (\<lambda>c. comp_division_id c = div_id) (competitors d) = [] \<and>
             filter (\<lambda>m. division_id m = div_id) (matches d) = []
          then (OK, d\<lparr>divisions := filter (\<lambda>x. div_ident x \<noteq> div_id) (divisions d)\<rparr>)
          else (ServerError, d))"

section \<open>Reading a bracket\<close>

text \<open>
  \<^verbatim>\<open>get_bracket\<close> (lines 230-260). An entry has the keys of the JSON object the
  handler builds; \<open>get_comp_data\<close> is the handler's inner helper of that name.
\<close>

record bracket_entry =
  entry_match_id :: int
  entry_round_name :: "string option"
  entry_status :: "string option"
  entry_ring_id :: "int option"
  entry_next_match_id :: "int option"
  entry_competitor1 :: "(int \<times> string) option"
  entry_competitor2 :: "(int \<times> string) option"
  entry_winner_id :: "int option"

definition get_comp_data :: "competitor list \<Rightarrow> int option \<Rightarrow> (int \<times> string) option" where
  "get_comp_data cs cid =
     (case cid of
        None \<Rightarrow> None
      | Some i \<Rightarrow>
          if i = 0 then None
          else (case get_competitor i cs of
                  None \<Rightarrow> None
                | Some cmp \<Rightarrow> Some (comp_id cmp, comp_name cmp)))"

definition bracket_data :: "competitor list \<Rightarrow> match \<Rightarrow> bracket_entry" where
  "bracket_data cs m =
     \<lparr>entry_match_id = match_id m,
      entry_round_name = round_name m,
      entry_status = status m,
      entry_ring_id = ring_id m,
      entry_next_match_id = next_match_id m,
      entry_competitor1 = get_comp_data cs (competitor1_id m),
      entry_competitor2 = get_comp_data cs (competitor2_id m),
      entry_winner_id = winner_id m\<rparr>"

definition get_bracket :: "int \<Rightarrow> db \<Rightarrow> response \<times> bracket_entry list" where
  "get_bracket div_id d =
     (let ms = filter (\<lambda>m. division_id m = div_id) (matches d) in
      if ms = [] then (NotFound, [])
      else (OK, map (bracket_data (competitors d)) ms))"

section \<open>Generating a bracket\<close>

text \<open>
  \<^verbatim>\<open>generate_bracket\<close> (lines 127-227). \<^verbatim>\<open>math.ceil(math.log2(n))\<close> is
  \<^const>\<open>ceillog2\<close>, the ceiling of the real logarithm; the double-precision
  logarithm agrees with it on every competitor count a tournament can hold (it first
  rounds a non-power of two down to an integer beyond \<open>2 ^ 47\<close>).
  \<^verbatim>\<open>random.shuffle\<close> is the parameter \<open>shuffle\<close>.
\<close>

text \<open>
  The key of a new row: the store numbers rows with the largest key in use plus one,
  from 1 in an empty table.
\<close>

definition new_id :: "match list \<Rightarrow> int" where
  "new_id ms = foldr max (map match_id ms) 0 + 1"

text \<open>
  The deal loop (lines 143-149): competitor \<open>i\<close> goes to pairing \<open>i mod n\<close>, slot
  \<open>i div n\<close>. A pairing is a two-element list, so a slot beyond 1 raises.
\<close>

type_synonym pairing = "competitor option \<times> competitor option"

definition deal_one :: "nat \<Rightarrow> pairing list \<Rightarrow> nat \<Rightarrow> competitor \<Rightarrow> py_error + pairing list" where
  "deal_one n ps i c =
     (if n = 0 then Inl ZeroDivisionError
      else
        let slot = i div n; match_index = i mod n in
        if slot = 0 then Inr (ps[match_index := (Some c, snd (ps ! match_index))])
        else if slot = 1 then Inr (ps[match_index := (fst (ps ! match_index), Some c)])
        else Inl IndexError)"

fun deal :: "nat \<Rightarrow> nat \<Rightarrow> competitor list \<Rightarrow> pairing list \<Rightarrow> py_error + pairing list" where
  "deal n i [] ps = Inr ps"
| "deal n i (c # cs) ps =
     (case deal_one n ps i c of
        Inl e \<Rightarrow> Inl e
      | Inr ps' \<Rightarrow> deal n (Suc i) cs ps')"

text \<open>
  A round-1 match (lines 154-169). \<open>bye_branch\<close> names the branch of the bye test a
  pairing takes: 1 for \<^verbatim>\<open>if comp1 and not comp2\<close>, 2 for
  \<^verbatim>\<open>elif comp2 and not comp1\<close>, 0 for neither. The column default gives a match
  whose status was not assigned the status \<^verbatim>\<open>Pending\<close>.
\<close>

definition bye_branch :: "pairing \<Rightarrow> nat" where
  "bye_branch p =
     (if fst p \<noteq> None \<and> snd p = None then 1
      else if snd p \<noteq> None \<and> fst p = None then 2
      else 0)"

definition round1_match :: "int \<Rightarrow> int \<Rightarrow> pairing \<Rightarrow> match" where
  "round1_match mid div_id p =
     (let comp1 = fst p; comp2 = snd p;
          m = \<lparr>match_id = mid, division_id = div_id, ring_id = None,
               competitor1_id = map_option comp_id comp1,
               competitor2_id = map_option comp_id comp2,
               winner_id = None, next_match_id = None, match_number = None,
               status = Some ''Pending'', round_name = Some ''Round 1''\<rparr>
      in if bye_branch p = 1
         then m\<lparr>winner_id := map_option comp_id comp1, status := Some ''Completed (Bye)''\<rparr>
         else if bye_branch p = 2
         then m\<lparr>winner_id := map_option comp_id comp2, status := Some ''Completed (Bye)''\<rparr>
         else m)"

text \<open>
  The loop over the pairings (lines 153-175): it appends one row per pairing and
  returns the table with the keys of the new rows, the \<^verbatim>\<open>current_round_matches\<close>.
\<close>

fun create_round1 :: "int \<Rightarrow> pairing list \<Rightarrow> match list \<Rightarrow> match list \<times> int list" where
  "create_round1 div_id [] tbl = (tbl, [])"
| "create_round1 div_id (p # ps) tbl =
     (let mid = new_id tbl;
          r = create_round1 div_id ps (tbl @ [round1_match mid div_id p])
      in (fst r, mid # snd r))"

text \<open>The round name (lines 188-195); \<open>str_nat\<close> is the decimal numeral of the f-string.\<close>

function str_nat :: "nat \<Rightarrow> string" where
  "str_nat n =
     (if n < 10 then [char_of (48 + n)]
      else str_nat (n div 10) @ [char_of (48 + n mod 10)])"
  by pat_completeness auto
termination
  by (relation "measure (\<lambda>n. n)") auto

definition r_name :: "nat \<Rightarrow> nat \<Rightarrow> string" where
  "r_name len round_num =
     (if len = 2 then ''Final''
      else if len = 4 then ''Semi-Final''
      else if len = 8 then ''Quarter-Final''
      else ''Round '' @ str_nat round_num)"

definition winner_of :: "int \<Rightarrow> match list \<Rightarrow> int option" where
  "winner_of i tbl = (case get_match i tbl of None \<Rightarrow> None | Some m \<Rightarrow> winner_id m)"

text \<open>
  The body of the inner loop (lines 184-211) for one pair of matches of the previous
  round: it creates the match of the next round, links both previous matches to it and
  pushes forward the winners they already have. It returns the table and the key of
  the new match.
\<close>

definition link_pair :: "int \<Rightarrow> string \<Rightarrow> int \<Rightarrow> int \<Rightarrow> match list \<Rightarrow> match list \<times> int" where
  "link_pair div_id rn prev_match1 prev_match2 tbl =
     (let nid = new_id tbl;
          new_match = \<lparr>match_id = nid, division_id = div_id, ring_id = None,
               competitor1_id = None, competitor2_id = None,
               winner_id = None, next_match_id = None, match_number = None,
               status = Some ''Pending'', round_name = Some rn\<rparr>;
          t1 = tbl @ [new_match];
          t2 = update_match prev_match1 (\<lambda>x. x\<lparr>next_match_id := Some nid\<rparr>) t1;
          t3 = update_match prev_match2 (\<lambda>x. x\<lparr>next_match_id := Some nid\<rparr>) t2;
          t4 = (if truthy (winner_of prev_match1 t3)
                then update_match nid (\<lambda>x. x\<lparr>competitor1_id := winner_of prev_match1 t3\<rparr>) t3
                else t3);
          t5 = (if truthy (winner_of prev_match2 t4)
                then update_match nid (\<lambda>x. x\<lparr>competitor2_id := winner_of prev_match2 t4\<rparr>) t4
                else t4)
      in (t5, nid))"

text \<open>
  One pass of the inner loop (lines 183-211) over the previous round, two matches at a
  time; a last match without a partner raises at \<^verbatim>\<open>current_round_matches[i + 1]\<close>.
\<close>

fun next_round :: "int \<Rightarrow> string \<Rightarrow> int list \<Rightarrow> match list \<Rightarrow> py_error + (match list \<times> int list)" where
  "next_round div_id rn [] tbl = Inr (tbl, [])"
| "next_round div_id rn [prev_match1] tbl = Inl IndexError"
| "next_round div_id rn (prev_match1 # prev_match2 # rest) tbl =
     (case link_pair div_id rn prev_match1 prev_match2 tbl of
        (t, nid) \<Rightarrow>
          (case next_round div_id rn rest t of
             Inl e \<Rightarrow> Inl e
           | Inr (t', ids) \<Rightarrow> Inr (t', nid # ids)))"

text \<open>The outer loop (lines 178-214), until one match is left.\<close>

function build_rounds :: "int \<Rightarrow> nat \<Rightarrow> int list \<Rightarrow> match list \<Rightarrow> py_error + match list" where
  "build_rounds div_id round_num cur tbl =
     (if 1 < length cur then
        (case next_round div_id (r_name (length cur) round_num) cur tbl of
           Inl e \<Rightarrow> Inl e
         | Inr (tbl', nxt) \<Rightarrow> build_rounds div_id (Suc round_num) nxt tbl')
      else Inr tbl)"
  by pat_completeness auto
termination
proof (relation "measure (\<lambda>(div_id, round_num, cur, tbl). length cur)")
  show "wf (measure (\<lambda>(div_id, round_num, cur, tbl). length cur))"
    by simp
next
  fix div_id :: int and round_num :: nat and cur :: "int list" and tbl :: "match list"
    and res :: "match list \<times> int list" and tbl' :: "match list" and nxt :: "int list"
  assume long: "1 < length cur"
    and run: "next_round div_id (r_name (length cur) round_num) cur tbl = Inr res"
    and res: "(tbl', nxt) = res"
  have halves: "next_round dv rn xs t = Inr (t', ids) \<Longrightarrow> length xs = 2 * length ids"
    for dv rn xs t t' ids
  proof (induction dv rn xs t arbitrary: t' ids rule: next_round.induct)
    case (3 dv rn p1 p2 rest t)
    then show ?case
      by (auto simp: Let_def split: sum.splits prod.splits)
  qed simp_all
  from run res have "length cur = 2 * length nxt"
    using halves by metis
  with long show "((div_id, Suc round_num, nxt, tbl'), (div_id, round_num, cur, tbl))
      \<in> measure (\<lambda>(div_id, round_num, cur, tbl). length cur)"
    by (cases nxt) simp_all
qed

text \<open>\<^verbatim>\<open>Competitor.query.filter_by(division_id=div_id).all()\<close>\<close>

definition competitors_in :: "int \<Rightarrow> db \<Rightarrow> competitor list" where
  "competitors_in div_id d = filter (\<lambda>c. comp_division_id c = div_id) (competitors d)"

definition generate_bracket :: "(competitor list \<Rightarrow> competitor list) \<Rightarrow> int \<Rightarrow> db \<Rightarrow> response \<times> db" where
  "generate_bracket shuffle div_id d =
     (let cs = competitors_in div_id d;
          num_comp = length cs
      in if num_comp < 2 then (BadRequest, d)
         else
           let next_power_of_2 = 2 ^ ceillog2 num_comp;
               num_first_round_matches = next_power_of_2 div 2
           in case deal num_first_round_matches 0 (shuffle cs)
                     (replicate num_first_round_matches (None, None)) of
                Inl e \<Rightarrow> (ServerError, d)
              | Inr match_pairings \<Rightarrow>
                  (case create_round1 div_id match_pairings (matches d) of
                     (tbl, current_round_matches) \<Rightarrow>
                       (case build_rounds div_id 2 current_round_matches tbl of
                          Inl e \<Rightarrow> (ServerError, d)
                        | Inr tbl' \<Rightarrow> (OK, d\<lparr>matches := tbl'\<rparr>))))"

text \<open>
  Two notions for stating what the builder leaves behind. After a row is created the
  loops rewrite its \<^verbatim>\<open>next_match_id\<close> and nothing else, so rows are compared with
  that link blanked. A row is a later-round row when it belongs to the division, is
  \<^verbatim>\<open>Pending\<close> without a winner and carries the round's name.
\<close>

definition unlinked :: "match \<Rightarrow> match" where
  "unlinked m = m\<lparr>next_match_id := None\<rparr>"

definition later_row :: "int \<Rightarrow> string \<Rightarrow> match \<Rightarrow> bool" where
  "later_row div_id rn u \<longleftrightarrow>
     division_id u = div_id \<and> status u = Some ''Pending'' \<and> winner_id u = None \<and>
     round_name u = Some rn"

section \<open>Example stores\<close>

text \<open>
  A division of four competitors and the bracket \<open>generate_bracket\<close> builds for it
  with the identity shuffle; the examples below run the handlers on it.
\<close>

definition roster4 :: "competitor list" where
  "roster4 =
     [\<lparr>comp_id = 10, comp_name = ''Ann'', comp_division_id = 1\<rparr>,
      \<lparr>comp_id = 11, comp_name = ''Bob'', comp_division_id = 1\<rparr>,
      \<lparr>comp_id = 12, comp_name = ''Cy'', comp_division_id = 1\<rparr>,
      \<lparr>comp_id = 13, comp_name = ''Dee'', comp_division_id = 1\<rparr>]"

definition pending_match :: "int \<Rightarrow> int option \<Rightarrow> int option \<Rightarrow> int option \<Rightarrow> string \<Rightarrow> match" where
  "pending_match i c1 c2 nxt rn =
     \<lparr>match_id = i, division_id = 1, ring_id = None, competitor1_id = c1,
      competitor2_id = c2, winner_id = None, next_match_id = nxt, match_number = None,
      status = Some ''Pending'', round_name = Some rn\<rparr>"

definition bracket4 :: db where
  "bracket4 =
     \<lparr>rings = [], divisions = [\<lparr>div_ident = 1, div_name = ''Juniors''\<rparr>],
      competitors = roster4,
      matches = [pending_match 1 (Some 10) (Some 12) (Some 3) ''Round 1'',
                 pending_match 2 (Some 11) (Some 13) (Some 3) ''Round 1'',
                 pending_match 3 None None None ''Final'']\<rparr>"

text \<open>The same bracket after match 1 was decided for competitor 10.\<close>

definition decided4 :: db where
  "decided4 =
     bracket4\<lparr>matches :=
       [(pending_match 1 (Some 10) (Some 12) (Some 3) ''Round 1'')
           \<lparr>status := Some ''Completed'', winner_id := Some 10\<rparr>,
        pending_match 2 (Some 11) (Some 13) (Some 3) ''Round 1'',
        pending_match 3 (Some 10) None None ''Final'']\<rparr>"

text \<open>A two-competitor division whose only match has no next match, with a competitor of
  another division recorded as its winner, under any name for that competitor.\<close>

definition outsider2 :: "string \<Rightarrow> db" where
  "outsider2 nm =
     \<lparr>rings = [], divisions = [\<lparr>div_ident = 1, div_name = ''Juniors''\<rparr>],
      competitors =
        [\<lparr>comp_id = 10, comp_name = ''Ann'', comp_division_id = 1\<rparr>,
         \<lparr>comp_id = 12, comp_name = ''Cy'', comp_division_id = 1\<rparr>,
         \<lparr>comp_id = 20, comp_name = nm, comp_division_id = 2\<rparr>],
      matches =
        [(pending_match 1 (Some 10) (Some 12) None ''Round 1'')
           \<lparr>status := Some ''Completed'', winner_id := Some 20\<rparr>]\<rparr>"

text \<open>Divisions of up to five competitors with no bracket yet.\<close>

definition entrants :: "nat \<Rightarrow> db" where
  "entrants n =
     \<lparr>rings = [], divisions = [\<lparr>div_ident = 1, div_name = ''Juniors''\<rparr>],
      competitors = take n (roster4 @ [\<lparr>comp_id = 14, comp_name = ''Eli'', comp_division_id = 1\<rparr>]),
      matches = []\<rparr>"

section \<open>Recording a result: properties\<close>

lemmas store_defs = bracket4_def decided4_def pending_match_def roster4_def

lemma bracket4_generated: "generate_bracket (\<lambda>xs. xs) 1 (entrants 4) = (OK, bracket4)"
  by code_simp

lemma get_match_update_match:
  assumes "\<And>x. match_id (f x) = match_id x"
  shows "get_match k (update_match i f ms) =
         (if k = i then map_option f (get_match k ms) else get_match k ms)"
  using assms by (induction ms) (auto simp: get_match_def update_match_def)

lemma bracket_advancement_slot:
  assumes "next_match_id m = Some nid" "nid \<noteq> 0" "get_match nid ms = Some nm"
  shows "bracket_advancement m ms =
     Inr (if \<not> truthy (competitor1_id nm)
          then update_match nid (\<lambda>x. x\<lparr>competitor1_id := winner_id m\<rparr>) ms
          else if \<not> truthy (competitor2_id nm)
          then update_match nid (\<lambda>x. x\<lparr>competitor2_id := winner_id m\<rparr>) ms
          else ms)"
  using assms by (simp add: bracket_advancement_def)

lemma slots_update_status_winner:
  "map (\<lambda>x. (competitor1_id x, competitor2_id x))
     (update_match i (\<lambda>x. x\<lparr>winner_id := w\<rparr>) (update_match i (\<lambda>x. x\<lparr>status := s\<rparr>) ms))
   = map (\<lambda>x. (competitor1_id x, competitor2_id x)) ms"
  by (induction ms) (auto simp: update_match_def)

lemma advancement_of_decided:
  assumes m: "get_match mid ms = Some m"
    and nx: "next_match_id m = Some nid" "nid \<noteq> 0" "get_match nid ms = Some nm"
  shows "bracket_advancement (m\<lparr>status := st, winner_id := Some wid\<rparr>)
           (update_match mid (\<lambda>x. x\<lparr>winner_id := Some wid\<rparr>)
              (update_match mid (\<lambda>x. x\<lparr>status := st\<rparr>) ms))
         = Inr (decided_rows mid st wid nid nm ms)"
proof -
  let ?ms2 = "update_match mid (\<lambda>x. x\<lparr>winner_id := Some wid\<rparr>)
                (update_match mid (\<lambda>x. x\<lparr>status := st\<rparr>) ms)"
  obtain nm2 where nm2: "get_match nid ?ms2 = Some nm2"
      "competitor1_id nm2 = competitor1_id nm" "competitor2_id nm2 = competitor2_id nm"
    using m nx by (cases "nid = mid") (auto simp: get_match_update_match)
  show ?thesis
    using bracket_advancement_slot[of "m\<lparr>status := st, winner_id := Some wid\<rparr>" nid ?ms2 nm2] nx nm2
    by (simp add: decided_rows_def)
qed

lemma record_result_decided:
  assumes "get_match mid (matches d) = Some m"
    and "st = Some ''Completed'' \<or> st = Some ''Disqualification''"
    and "next_match_id m = Some nid" "nid \<noteq> 0" "get_match nid (matches d) = Some nm"
    and "wid \<noteq> 0" "storable (Some wid)"
  shows "record_result mid st (Some wid) d =
           (OK, d\<lparr>matches := decided_rows mid st wid nid nm (matches d)\<rparr>)"
  using assms advancement_of_decided[where mid = mid and ms = "matches d" and m = m and nid = nid and nm = nm and st = st and wid = wid]
  by (auto simp: record_result_def truthy_def Let_def)

lemma ui_record_result_decided:
  assumes "get_match mid (matches d) = Some m"
    and "st = Some ''Completed'' \<or> st = Some ''Disqualification''"
    and "next_match_id m = Some nid" "nid \<noteq> 0" "get_match nid (matches d) = Some nm"
    and "txt \<noteq> []" "py_int txt = Some wid" "get_competitor wid (competitors d) = Some c"
    and "storable (Some wid)"
  shows "ui_record_result py_int mid st (Some txt) d =
           (OK, d\<lparr>matches := decided_rows mid st wid nid nm (matches d)\<rparr>)"
  using assms advancement_of_decided[where mid = mid and ms = "matches d" and m = m and nid = nid and nm = nm and st = st and wid = wid]
  by (auto simp: ui_record_result_def Let_def)

lemma decided_rows_slots:
  assumes "get_match nid ms = Some nm"
  shows "(\<not> truthy (competitor1_id nm) \<longrightarrow>
        (\<exists>nm'. get_match nid (decided_rows mid st wid nid nm ms) = Some nm' \<and>
           competitor1_id nm' = Some wid \<and> competitor2_id nm' = competitor2_id nm)) \<and>
     (truthy (competitor1_id nm) \<and> \<not> truthy (competitor2_id nm) \<longrightarrow>
        (\<exists>nm'. get_match nid (decided_rows mid st wid nid nm ms) = Some nm' \<and>
           competitor1_id nm' = competitor1_id nm \<and> competitor2_id nm' = Some wid)) \<and>
     (truthy (competitor1_id nm) \<and> truthy (competitor2_id nm) \<longrightarrow>
        map (\<lambda>x. (competitor1_id x, competitor2_id x)) (decided_rows mid st wid nid nm ms) =
        map (\<lambda>x. (competitor1_id x, competitor2_id x)) ms) \<and>
     (\<forall>k. k \<noteq> nid \<longrightarrow>
        map_option (\<lambda>x. (competitor1_id x, competitor2_id x)) (get_match k (decided_rows mid st wid nid nm ms)) =
        map_option (\<lambda>x. (competitor1_id x, competitor2_id x)) (get_match k ms))"
  using assms
  by (cases "nid = mid")
     (auto simp: decided_rows_def Let_def get_match_update_match slots_update_status_winner
        option.map_comp comp_def)

text \<open>
  Claim C2, as amended. A call with status \<^verbatim>\<open>Completed\<close> or \<^verbatim>\<open>Disqualification\<close>
  and a winner id that is non-zero, fits the store's signed 64-bit integer column and
  that the handler accepts (on the JSON endpoint non-null; on the form endpoint a
  non-empty text that \<^verbatim>\<open>int\<close> reads, naming an existing competitor), on a match
  whose next match exists, answers 200 and writes the winner
  into the next match's slot 1 when that slot is empty (null or 0), otherwise into
  slot 2 when that one is empty; with both slots occupied no slot of any match
  changes. In every case the slots of all other matches are as before.
\<close>

theorem winner_fills_first_empty_slot:
  assumes m: "get_match mid (matches d) = Some m"
    and st: "st = Some ''Completed'' \<or> st = Some ''Disqualification''"
    and nx: "next_match_id m = Some nid" "nid \<noteq> 0" "get_match nid (matches d) = Some nm"
    and w: "wid \<noteq> 0"
    and rng: "storable (Some wid)"
    and res: "res = record_result mid st (Some wid) d \<or>
              (res = ui_record_result py_int mid st (Some txt) d \<and> txt \<noteq> [] \<and>
               py_int txt = Some wid \<and> get_competitor wid (competitors d) = Some c)"
  shows "fst res = OK \<and>
     (\<not> truthy (competitor1_id nm) \<longrightarrow>
        (\<exists>nm'. get_match nid (matches (snd res)) = Some nm' \<and>
           competitor1_id nm' = Some wid \<and> competitor2_id nm' = competitor2_id nm)) \<and>
     (truthy (competitor1_id nm) \<and> \<not> truthy (competitor2_id nm) \<longrightarrow>
        (\<exists>nm'. get_match nid (matches (snd res)) = Some nm' \<and>
           competitor1_id nm' = competitor1_id nm \<and> competitor2_id nm' = Some wid)) \<and>
     (truthy (competitor1_id nm) \<and> truthy (competitor2_id nm) \<longrightarrow>
        map (\<lambda>x. (competitor1_id x, competitor2_id x)) (matches (snd res)) =
        map (\<lambda>x. (competitor1_id x, competitor2_id x)) (matches d)) \<and>
     (\<forall>k. k \<noteq> nid \<longrightarrow>
        map_option (\<lambda>x. (competitor1_id x, competitor2_id x)) (get_match k (matches (snd res))) =
        map_option (\<lambda>x. (competitor1_id x, competitor2_id x)) (get_match k (matches d)))"
proof -
  have json: "record_result mid st (Some wid) d =
      (OK, d\<lparr>matches := decided_rows mid st wid nid nm (matches d)\<rparr>)"
    using m st nx w rng by (rule record_result_decided)
  have form: "ui_record_result py_int mid st (Some txt) d =
      (OK, d\<lparr>matches := decided_rows mid st wid nid nm (matches d)\<rparr>)"
    if "txt \<noteq> []" "py_int txt = Some wid" "get_competitor wid (competitors d) = Some c"
    using m st nx that rng by (rule ui_record_result_decided)
  have "res = (OK, d\<lparr>matches := decided_rows mid st wid nid nm (matches d)\<rparr>)"
    using res json form by auto
  moreover note decided_rows_slots[OF nx(3), where mid = mid and st = st and wid = wid]
  ultimately show ?thesis by simp
qed

text \<open>
  The theorem at the four-competitor bracket. On the JSON endpoint match 1 is decided
  for competitor 10 and the final, both of whose slots are empty, receives 10 in slot 1.
  On the form endpoint match 2 is then decided for competitor 11, and the final, whose
  slot 1 holds 10, receives 11 in slot 2.
\<close>

theorem winner_fills_first_empty_slot_witness:
  "fst (record_result 1 (Some ''Completed'') (Some 10) bracket4) = OK \<and>
   (\<exists>nm'. get_match 3 (matches (snd (record_result 1 (Some ''Completed'') (Some 10) bracket4))) = Some nm' \<and>
      competitor1_id nm' = Some 10 \<and> competitor2_id nm' = None) \<and>
   fst (ui_record_result (\<lambda>s. if s = ''11'' then Some 11 else None) 2 (Some ''Disqualification'')
          (Some ''11'') decided4) = OK \<and>
   (\<exists>nm'. get_match 3 (matches (snd
          (ui_record_result (\<lambda>s. if s = ''11'' then Some 11 else None) 2 (Some ''Disqualification'')
             (Some ''11'') decided4))) = Some nm' \<and>
      competitor1_id nm' = Some 10 \<and> competitor2_id nm' = Some 11)"
proof -
  let ?py = "\<lambda>s. if s = ''11'' then Some (11::int) else None"
  have m: "get_match 1 (matches bracket4) = Some (pending_match 1 (Some 10) (Some 12) (Some 3) ''Round 1'')"
    by (simp add: bracket4_def get_match_def pending_match_def)
  have st: "Some ''Completed'' = Some ''Completed'' \<or> Some ''Completed'' = Some ''Disqualification''"
    by simp
  have nx: "next_match_id (pending_match 1 (Some 10) (Some 12) (Some 3) ''Round 1'') = Some 3"
    by (simp add: pending_match_def)
  have nz: "(3::int) \<noteq> 0" by simp
  have nm: "get_match 3 (matches bracket4) = Some (pending_match 3 None None None ''Final'')"
    by (simp add: bracket4_def get_match_def pending_match_def)
  have w: "(10::int) \<noteq> 0" by simp
  have rng: "storable (Some 10)" by (simp add: storable_def)
  have res: "record_result 1 (Some ''Completed'') (Some 10) bracket4 = record_result 1 (Some ''Completed'') (Some 10) bracket4 \<or>
      (record_result 1 (Some ''Completed'') (Some 10) bracket4 = ui_record_result ?py 1 (Some ''Completed'') (Some []) bracket4 \<and> [] \<noteq> [] \<and>
       ?py [] = Some 10 \<and> get_competitor 10 (competitors bracket4) = Some (hd roster4))"
    by simp
  have m2: "get_match 2 (matches decided4) = Some (pending_match 2 (Some 11) (Some 13) (Some 3) ''Round 1'')"
    by (simp add: store_defs get_match_def)
  have st2: "Some ''Disqualification'' = Some ''Completed'' \<or>
      Some ''Disqualification'' = Some ''Disqualification''"
    by simp
  have nx2: "next_match_id (pending_match 2 (Some 11) (Some 13) (Some 3) ''Round 1'') = Some 3"
    by (simp add: pending_match_def)
  have nm2: "get_match 3 (matches decided4) = Some (pending_match 3 (Some 10) None None ''Final'')"
    by (simp add: store_defs get_match_def)
  have w2: "(11::int) \<noteq> 0" by simp
  have rng2: "storable (Some 11)" by (simp add: storable_def)
  have res2: "ui_record_result ?py 2 (Some ''Disqualification'') (Some ''11'') decided4 =
        record_result 2 (Some ''Disqualification'') (Some 11) decided4 \<or>
      (ui_record_result ?py 2 (Some ''Disqualification'') (Some ''11'') decided4 =
        ui_record_result ?py 2 (Some ''Disqualification'') (Some ''11'') decided4 \<and> ''11'' \<noteq> [] \<and>
       ?py ''11'' = Some 11 \<and>
       get_competitor 11 (competitors decided4) =
         Some \<lparr>comp_id = 11, comp_name = ''Bob'', comp_division_id = 1\<rparr>)"
    by (simp add: store_defs get_competitor_def)
  from winner_fills_first_empty_slot[OF m st nx nz nm w rng res]
    winner_fills_first_empty_slot[OF m2 st2 nx2 nz nm2 w2 rng2 res2]
  show ?thesis by (simp add: truthy_def pending_match_def)
qed

text \<open>
  Claim C2 as stated fails on the JSON endpoint for the non-null winner id 0: the
  handler's test \<^verbatim>\<open>if not winner_id\<close> takes 0 for a missing winner, answers 400 and
  places nothing, although match 1 has a next match with an empty slot 1.
\<close>

theorem winner_zero_rejected:
  "record_result 1 (Some ''Completed'') (Some 0) bracket4 = (BadRequest, bracket4)"
  by (simp add: record_result_def bracket4_def pending_match_def get_match_def truthy_def)

text \<open>
  A winner id beyond the 64-bit range is accepted by the presence test and fails at the
  flush: a server error, and nothing is placed.
\<close>

lemma winner_out_of_range:
  "record_result 1 (Some ''Completed'') (Some (2 ^ 63)) bracket4 = (ServerError, bracket4)"
  by (simp add: record_result_def bracket4_def pending_match_def get_match_def truthy_def
      storable_def)

text \<open>
  Claim C5. A call with status \<^verbatim>\<open>Completed\<close> or \<^verbatim>\<open>Disqualification\<close> and no winner
  id (the JSON key absent or null; the form field absent or empty) on an existing match
  answers 400, the missing-winner error, and the store is the one before the call: the
  targeted match and every other match are unmodified. (The status assigned before the
  check lives in the session only and is never committed.)
\<close>

theorem missing_winner_no_mutation:
  assumes "get_match mid (matches d) = Some m"
    and "st = Some ''Completed'' \<or> st = Some ''Disqualification''"
  shows "record_result mid st None d = (BadRequest, d) \<and>
         ui_record_result py_int mid st None d = (BadRequest, d) \<and>
         ui_record_result py_int mid st (Some []) d = (BadRequest, d)"
  using assms by (auto simp: record_result_def ui_record_result_def truthy_def Let_def)

theorem missing_winner_no_mutation_witness:
  "record_result 1 (Some ''Completed'') None bracket4 = (BadRequest, bracket4) \<and>
   ui_record_result (\<lambda>s. None) 1 (Some ''Completed'') None bracket4 = (BadRequest, bracket4) \<and>
   ui_record_result (\<lambda>s. None) 1 (Some ''Completed'') (Some []) bracket4 = (BadRequest, bracket4)"
proof -
  have m: "get_match 1 (matches bracket4) = Some (pending_match 1 (Some 10) (Some 12) (Some 3) ''Round 1'')"
    by (simp add: bracket4_def get_match_def pending_match_def)
  have st: "Some ''Completed'' = Some ''Completed'' \<or> Some ''Completed'' = Some ''Disqualification''"
    by simp
  show ?thesis by (rule missing_winner_no_mutation[OF m st])
qed

lemma bracket_advancement_keeps_result:
  assumes "bracket_advancement m ms = Inr ms'" "get_match k ms = Some x"
  shows "\<exists>x'. get_match k ms' = Some x' \<and> winner_id x' = winner_id x \<and> status x' = status x"
proof (cases "next_match_id m")
  case None
  with assms show ?thesis by (simp add: bracket_advancement_def)
next
  case (Some nid)
  show ?thesis
  proof (cases "nid = 0")
    case True
    with Some assms show ?thesis by (simp add: bracket_advancement_def)
  next
    case False
    with Some assms obtain nm where nm: "get_match nid ms = Some nm"
      by (cases "get_match nid ms") (simp_all add: bracket_advancement_def)
    from assms(1) have "ms' = (if \<not> truthy (competitor1_id nm)
          then update_match nid (\<lambda>x. x\<lparr>competitor1_id := winner_id m\<rparr>) ms
          else if \<not> truthy (competitor2_id nm)
          then update_match nid (\<lambda>x. x\<lparr>competitor2_id := winner_id m\<rparr>) ms
          else ms)"
      unfolding bracket_advancement_slot[OF Some False nm] by simp
    with assms(2) show ?thesis
      by (auto simp: get_match_update_match)
  qed
qed

lemma record_result_cases:
  "(fst (record_result mid st w d) \<noteq> OK \<and> snd (record_result mid st w d) = d) \<or>
   (\<exists>m1 v ms3. w = Some v \<and>
      bracket_advancement m1
        (update_match mid (\<lambda>x. x\<lparr>winner_id := Some v\<rparr>)
           (update_match mid (\<lambda>x. x\<lparr>status := st\<rparr>) (matches d))) = Inr ms3 \<and>
      record_result mid st w d = (OK, d\<lparr>matches := ms3\<rparr>))"
proof (cases "get_match mid (matches d)")
  case None
  then show ?thesis by (simp add: record_result_def)
next
  case (Some m0)
  show ?thesis
  proof (cases "(st = Some ''Completed'' \<or> st = Some ''Disqualification'') \<and> truthy w \<and> storable w")
    case False
    with Some show ?thesis by (auto simp: record_result_def Let_def)
  next
    case True
    then obtain v where v: "w = Some v" by (cases w) (simp_all add: truthy_def)
    show ?thesis
    proof (cases "bracket_advancement (m0\<lparr>status := st, winner_id := Some v\<rparr>)
        (update_match mid (\<lambda>x. x\<lparr>winner_id := Some v\<rparr>)
           (update_match mid (\<lambda>x. x\<lparr>status := st\<rparr>) (matches d)))")
      case (Inl e)
      with Some True v show ?thesis by (simp add: record_result_def Let_def)
    next
      case (Inr ms3)
      with Some True v have "record_result mid st w d = (OK, d\<lparr>matches := ms3\<rparr>)"
        by (simp add: record_result_def Let_def)
      with Inr v show ?thesis by blast
    qed
  qed
qed

lemma ui_record_result_cases:
  "(fst (ui_record_result py_int mid st txt d) \<noteq> OK \<and>
      snd (ui_record_result py_int mid st txt d) = d) \<or>
   (st = Some ''In Progress'' \<and>
      matches (snd (ui_record_result py_int mid st txt d)) =
        update_match mid (\<lambda>x. x\<lparr>status := st\<rparr>) (matches d)) \<or>
   (\<exists>m1 v ms3. bracket_advancement m1
        (update_match mid (\<lambda>x. x\<lparr>winner_id := Some v\<rparr>)
           (update_match mid (\<lambda>x. x\<lparr>status := st\<rparr>) (matches d))) = Inr ms3 \<and>
      matches (snd (ui_record_result py_int mid st txt d)) = ms3)"
proof (cases "get_match mid (matches d)")
  case None
  then show ?thesis by (simp add: ui_record_result_def)
next
  case (Some m0)
  show ?thesis
  proof (cases "st = Some ''In Progress''")
    case True
    with Some show ?thesis by (simp add: ui_record_result_def Let_def)
  next
    case prog: False
    show ?thesis
    proof (cases "(st = Some ''Completed'' \<or> st = Some ''Disqualification'') \<and>
        (\<exists>t v. txt = Some t \<and> t \<noteq> [] \<and> py_int t = Some v \<and> storable (Some v))")
      case False
      with Some prog show ?thesis
        by (auto simp: ui_record_result_def Let_def split: option.splits)
    next
      case True
      then obtain t v where tv: "txt = Some t" "t \<noteq> []" "py_int t = Some v" "storable (Some v)"
        by blast
      show ?thesis
      proof (cases "bracket_advancement (m0\<lparr>status := st, winner_id := Some v\<rparr>)
          (update_match mid (\<lambda>x. x\<lparr>winner_id := Some v\<rparr>)
             (update_match mid (\<lambda>x. x\<lparr>status := st\<rparr>) (matches d)))")
        case (Inl e)
        with Some prog True tv show ?thesis by (simp add: ui_record_result_def Let_def)
      next
        case (Inr ms3)
        with Some prog True tv have "matches (snd (ui_record_result py_int mid st txt d)) = ms3"
          by (simp add: ui_record_result_def Let_def split: option.splits)
        with Inr show ?thesis by blast
      qed
    qed
  qed
qed

lemma decided_step:
  assumes k: "get_match k (matches d) = Some m"
    and dec: "winner_id m \<noteq> None"
    and adv: "bracket_advancement m1 (update_match mid (\<lambda>x. x\<lparr>winner_id := Some v\<rparr>)
            (update_match mid (\<lambda>x. x\<lparr>status := st\<rparr>) (matches d))) = Inr ms3"
  shows "\<exists>m'. get_match k ms3 = Some m' \<and> winner_id m' \<noteq> None \<and>
           (k \<noteq> mid \<longrightarrow> winner_id m' = winner_id m \<and> status m' = status m) \<and>
           (k = mid \<longrightarrow> status m' = st \<and> winner_id m' = Some v)"
proof -
  have "\<exists>x. get_match k (update_match mid (\<lambda>x. x\<lparr>winner_id := Some v\<rparr>)
            (update_match mid (\<lambda>x. x\<lparr>status := st\<rparr>) (matches d))) = Some x \<and>
       winner_id x \<noteq> None \<and> (k \<noteq> mid \<longrightarrow> winner_id x = winner_id m \<and> status x = status m) \<and>
       (k = mid \<longrightarrow> status x = st \<and> winner_id x = Some v)"
    using k dec by (cases "k = mid") (auto simp: get_match_update_match)
  then obtain x where x: "get_match k (update_match mid (\<lambda>x. x\<lparr>winner_id := Some v\<rparr>)
            (update_match mid (\<lambda>x. x\<lparr>status := st\<rparr>) (matches d))) = Some x"
       "winner_id x \<noteq> None" "k \<noteq> mid \<longrightarrow> winner_id x = winner_id m \<and> status x = status m"
       "k = mid \<longrightarrow> status x = st \<and> winner_id x = Some v"
    by blast
  from bracket_advancement_keeps_result[OF adv x(1)]
  obtain x' where "get_match k ms3 = Some x'" "winner_id x' = winner_id x" "status x' = status x"
    by blast
  with x(2,3,4) show ?thesis by simp
qed

lemma json_on_decided:
  assumes k: "get_match k (matches d) = Some m"
    and dec: "winner_id m \<noteq> None"
  shows "\<exists>m'. get_match k (matches (snd (record_result mid st w d))) = Some m' \<and>
           winner_id m' \<noteq> None \<and>
           (k \<noteq> mid \<longrightarrow> winner_id m' = winner_id m \<and> status m' = status m) \<and>
           (k = mid \<and> fst (record_result mid st w d) = OK \<longrightarrow>
              status m' = st \<and> winner_id m' = w)"
proof -
  consider "fst (record_result mid st w d) \<noteq> OK" "snd (record_result mid st w d) = d"
    | m1 v ms3 where "w = Some v" "bracket_advancement m1
        (update_match mid (\<lambda>x. x\<lparr>winner_id := Some v\<rparr>)
           (update_match mid (\<lambda>x. x\<lparr>status := st\<rparr>) (matches d))) = Inr ms3"
      "record_result mid st w d = (OK, d\<lparr>matches := ms3\<rparr>)"
    using record_result_cases by blast
  then show ?thesis
  proof cases
    case 1
    with k dec show ?thesis by simp
  next
    case 2
    from decided_step[OF k dec 2(2)] show ?thesis
      unfolding 2(3) using 2(1) by auto
  qed
qed

lemma form_on_decided:
  assumes k: "get_match k (matches d) = Some m"
    and dec: "winner_id m \<noteq> None"
  shows "\<exists>m'. get_match k (matches (snd (ui_record_result py_int mid st txt d))) = Some m' \<and>
           winner_id m' \<noteq> None \<and>
           (k \<noteq> mid \<longrightarrow> winner_id m' = winner_id m \<and> status m' = status m) \<and>
           (k = mid \<and> fst (ui_record_result py_int mid st txt d) = OK \<longrightarrow> status m' = st)"
proof -
  consider "fst (ui_record_result py_int mid st txt d) \<noteq> OK"
      "snd (ui_record_result py_int mid st txt d) = d"
    | "matches (snd (ui_record_result py_int mid st txt d)) =
        update_match mid (\<lambda>x. x\<lparr>status := st\<rparr>) (matches d)"
    | m1 v ms3 where "bracket_advancement m1
        (update_match mid (\<lambda>x. x\<lparr>winner_id := Some v\<rparr>)
           (update_match mid (\<lambda>x. x\<lparr>status := st\<rparr>) (matches d))) = Inr ms3"
      "matches (snd (ui_record_result py_int mid st txt d)) = ms3"
    using ui_record_result_cases by blast
  then show ?thesis
  proof cases
    case 1
    with k dec show ?thesis by simp
  next
    case 2
    show ?thesis
      unfolding 2 using k dec by (cases "k = mid") (auto simp: get_match_update_match)
  next
    case 3
    from decided_step[OF k dec 3(1)] show ?thesis
      unfolding 3(2) by auto
  qed
qed

text \<open>
  Claim C6, as amended. For a match whose winner has been set, no call on another
  match changes its winner or its status, and no call at all clears its winner. A call
  on the decided match itself is not guarded: whenever such a call succeeds, the
  match's status is the submitted one afterwards, and on the JSON endpoint its winner
  is the submitted one.
\<close>

theorem decided_match_frame:
  assumes k: "get_match k (matches d) = Some m"
    and dec: "winner_id m \<noteq> None"
    and res: "res = record_result mid st w d \<or> res = ui_record_result py_int mid st txt d"
  shows "\<exists>m'. get_match k (matches (snd res)) = Some m' \<and> winner_id m' \<noteq> None \<and>
           (k \<noteq> mid \<longrightarrow> winner_id m' = winner_id m \<and> status m' = status m) \<and>
           (k = mid \<and> fst res = OK \<longrightarrow> status m' = st) \<and>
           (k = mid \<and> fst res = OK \<and> res = record_result mid st w d \<longrightarrow> winner_id m' = w)"
proof -
  from json_on_decided[OF k dec] obtain mj where mj:
    "get_match k (matches (snd (record_result mid st w d))) = Some mj" "winner_id mj \<noteq> None"
    "k \<noteq> mid \<longrightarrow> winner_id mj = winner_id m \<and> status mj = status m"
    "k = mid \<and> fst (record_result mid st w d) = OK \<longrightarrow> status mj = st \<and> winner_id mj = w"
    by blast
  from form_on_decided[OF k dec] obtain mf where mf:
    "get_match k (matches (snd (ui_record_result py_int mid st txt d))) = Some mf"
    "winner_id mf \<noteq> None"
    "k \<noteq> mid \<longrightarrow> winner_id mf = winner_id m \<and> status mf = status m"
    "k = mid \<and> fst (ui_record_result py_int mid st txt d) = OK \<longrightarrow> status mf = st"
    by blast
  from res show ?thesis
  proof
    assume r: "res = record_result mid st w d"
    show ?thesis
      unfolding r using mj by auto
  next
    assume r: "res = ui_record_result py_int mid st txt d"
    show ?thesis
    proof (cases "res = record_result mid st w d")
      case True
      show ?thesis unfolding True using mj by auto
    next
      case False
      show ?thesis
        using False mf unfolding r by auto
    qed
  qed
qed

text \<open>
  The theorem at the decided bracket, where match 1 is decided for competitor 10: a
  result recorded on match 2 leaves the winner and the status of match 1 as they were,
  and a second result recorded on match 1 itself, for competitor 12, succeeds and
  replaces its winner.
\<close>

theorem decided_match_frame_witness:
  "(\<exists>m'. get_match 1 (matches (snd (record_result 2 (Some ''Completed'') (Some 11) decided4))) = Some m' \<and>
      winner_id m' = Some 10 \<and> status m' = Some ''Completed'') \<and>
   (\<exists>m'. get_match 1 (matches (snd (record_result 1 (Some ''Disqualification'') (Some 12) decided4))) = Some m' \<and>
      winner_id m' = Some 12 \<and> status m' = Some ''Disqualification'')"
proof -
  have k: "get_match 1 (matches decided4) =
      Some ((pending_match 1 (Some 10) (Some 12) (Some 3) ''Round 1'')
           \<lparr>status := Some ''Completed'', winner_id := Some 10\<rparr>)"
    by (simp add: store_defs get_match_def)
  have dec: "winner_id ((pending_match 1 (Some 10) (Some 12) (Some 3) ''Round 1'')
           \<lparr>status := Some ''Completed'', winner_id := Some 10\<rparr>) \<noteq> None"
    by simp
  have res: "record_result 2 (Some ''Completed'') (Some 11) decided4 =
        record_result 2 (Some ''Completed'') (Some 11) decided4 \<or>
      record_result 2 (Some ''Completed'') (Some 11) decided4 =
        ui_record_result (\<lambda>s. None) 2 (Some ''Completed'') None decided4"
    by simp
  have res': "record_result 1 (Some ''Disqualification'') (Some 12) decided4 =
        record_result 1 (Some ''Disqualification'') (Some 12) decided4 \<or>
      record_result 1 (Some ''Disqualification'') (Some 12) decided4 =
        ui_record_result (\<lambda>s. None) 1 (Some ''Disqualification'') None decided4"
    by simp
  have ok: "fst (record_result 1 (Some ''Disqualification'') (Some 12) decided4) = OK"
    by (simp add: store_defs record_result_def bracket_advancement_def get_match_def
        update_match_def truthy_def storable_def)
  from decided_match_frame[OF k dec res] decided_match_frame[OF k dec res'] ok
  show ?thesis
    by (auto simp: pending_match_def)
qed

lemma decided4_reached:
  "record_result 1 (Some ''Completed'') (Some 10) bracket4 = (OK, decided4)"
  by (simp add: store_defs record_result_def bracket_advancement_def get_match_def
      update_match_def truthy_def storable_def)

text \<open>
  Claim C6 as stated fails: neither handler refuses a call on a decided match. On the
  bracket where match 1 is \<^verbatim>\<open>Completed\<close> with winner 10, the form endpoint with
  \<^verbatim>\<open>In Progress\<close> moves the status back to \<^verbatim>\<open>In Progress\<close>, and the JSON endpoint
  with winner 12 replaces the winner.
\<close>

theorem decided_match_overwritten:
  "map_option (\<lambda>x. (status x, winner_id x)) (get_match 1 (matches decided4)) =
     Some (Some ''Completed'', Some 10) \<and>
   map_option status (get_match 1 (matches (snd
       (ui_record_result (\<lambda>s. None) 1 (Some ''In Progress'') None decided4)))) =
     Some (Some ''In Progress'') \<and>
   map_option winner_id (get_match 1 (matches (snd
       (record_result 1 (Some ''Completed'') (Some 12) decided4)))) =
     Some (Some 12)"
  by (simp add: store_defs record_result_def ui_record_result_def bracket_advancement_def
      get_match_def update_match_def truthy_def storable_def)

text \<open>
  Claim C9 at a failing input. The JSON endpoint \<^verbatim>\<open>record_result\<close> with status
  \<^verbatim>\<open>In Progress\<close> handles no case but \<^verbatim>\<open>Completed\<close> and \<^verbatim>\<open>Disqualification\<close>:
  it neither commits the status nor returns a response, so the call does not succeed
  and the store is unchanged. The form endpoint on the same input answers 200 and sets
  the status.
\<close>

theorem in_progress_json_endpoint:
  "record_result 1 (Some ''In Progress'') None bracket4 = (ServerError, bracket4) \<and>
   fst (ui_record_result (\<lambda>s. None) 1 (Some ''In Progress'') None bracket4) = OK \<and>
   map_option status (get_match 1 (matches (snd
       (ui_record_result (\<lambda>s. None) 1 (Some ''In Progress'') None bracket4)))) =
     Some (Some ''In Progress'')"
  by (simp add: store_defs record_result_def ui_record_result_def get_match_def update_match_def)

text \<open>
  On the form endpoint the claim holds: the call succeeds whatever the winner field
  holds, and the committed table differs from the old one in the status of the
  targeted match only.
\<close>

lemma ui_in_progress_frame:
  assumes "get_match mid (matches d) = Some m"
  shows "ui_record_result py_int mid (Some ''In Progress'') txt d =
           (OK, d\<lparr>matches := update_match mid (\<lambda>x. x\<lparr>status := Some ''In Progress''\<rparr>) (matches d)\<rparr>)"
  using assms by (simp add: ui_record_result_def)

section \<open>Deleting a division: properties\<close>

text \<open>
  Claim C7 at a failing input. \<^verbatim>\<open>edit_division\<close> with \<^verbatim>\<open>DELETE\<close> on the division
  of the four-competitor bracket removes neither its matches nor its competitors (the
  request fails and the division stays as well), where \<^verbatim>\<open>ui_delete_division\<close> on
  the same store removes all three.
\<close>

theorem delete_division_json_endpoint:
  "edit_division_delete 1 bracket4 = (ServerError, bracket4) \<and>
   ui_delete_division 1 bracket4 =
     (OK, \<lparr>rings = [], divisions = [], competitors = [], matches = []\<rparr>)"
  by (simp add: store_defs edit_division_delete_def ui_delete_division_def get_division_def)

text \<open>
  On \<^verbatim>\<open>ui_delete_division\<close> the claim holds: after the call no match and no
  competitor of the division is left, and the division is gone.
\<close>

lemma ui_delete_division_cascades:
  assumes "get_division div_id (divisions d) = Some dv"
  shows "fst (ui_delete_division div_id d) = OK \<and>
     filter (\<lambda>m. division_id m = div_id) (matches (snd (ui_delete_division div_id d))) = [] \<and>
     filter (\<lambda>c. comp_division_id c = div_id) (competitors (snd (ui_delete_division div_id d))) = [] \<and>
     get_division div_id (divisions (snd (ui_delete_division div_id d))) = None"
  using assms
  by (auto simp: ui_delete_division_def Let_def get_division_def find_None_iff filter_empty_conv)

section \<open>Reading a bracket: properties\<close>

lemma get_comp_data_resolved:
  "get_comp_data cs cid =
     (case cid of
        None \<Rightarrow> None
      | Some i \<Rightarrow> if i = 0 then None
                  else map_option (\<lambda>c. (i, comp_name c)) (get_competitor i cs))"
proof (cases cid)
  case None
  then show ?thesis by (simp add: get_comp_data_def)
next
  case (Some i)
  have "comp_id c = i" if "get_competitor i cs = Some c" for c
    using that by (auto simp: get_competitor_def find_Some_iff)
  with Some show ?thesis
    by (cases "get_competitor i cs") (simp_all add: get_comp_data_def)
qed

text \<open>
  Claim C8, as amended. For a division that has matches, \<^verbatim>\<open>get_bracket\<close> answers 200
  with one entry per match of the division, in table order. An entry carries the match
  id, round name, status, ring id and next-match id of its match; for slot 1 and for
  slot 2 the competitor's id with its name (nothing for an empty slot or an unknown
  competitor); and the winner as the bare winner id, without a name.
\<close>

theorem get_bracket_entries:
  assumes "filter (\<lambda>m. division_id m = div_id) (matches d) \<noteq> []"
  shows "fst (get_bracket div_id d) = OK \<and>
     list_all2 (\<lambda>e m.
         entry_match_id e = match_id m \<and>
         entry_round_name e = round_name m \<and>
         entry_status e = status m \<and>
         entry_ring_id e = ring_id m \<and>
         entry_next_match_id e = next_match_id m \<and>
         entry_winner_id e = winner_id m \<and>
         entry_competitor1 e =
           (case competitor1_id m of
              None \<Rightarrow> None
            | Some i \<Rightarrow> if i = 0 then None
                        else map_option (\<lambda>c. (i, comp_name c)) (get_competitor i (competitors d))) \<and>
         entry_competitor2 e =
           (case competitor2_id m of
              None \<Rightarrow> None
            | Some i \<Rightarrow> if i = 0 then None
                        else map_option (\<lambda>c. (i, comp_name c)) (get_competitor i (competitors d))))
       (snd (get_bracket div_id d))
       (filter (\<lambda>m. division_id m = div_id) (matches d))"
  using assms
  by (simp add: get_bracket_def Let_def list_all2_conv_all_nth bracket_data_def
      get_comp_data_resolved)

text \<open>The theorem at the decided four-competitor bracket.\<close>

theorem get_bracket_entries_witness:
  "get_bracket 1 decided4 =
     (OK,
      [\<lparr>entry_match_id = 1, entry_round_name = Some ''Round 1'',
        entry_status = Some ''Completed'', entry_ring_id = None,
        entry_next_match_id = Some 3, entry_competitor1 = Some (10, ''Ann''),
        entry_competitor2 = Some (12, ''Cy''), entry_winner_id = Some 10\<rparr>,
       \<lparr>entry_match_id = 2, entry_round_name = Some ''Round 1'',
        entry_status = Some ''Pending'', entry_ring_id = None,
        entry_next_match_id = Some 3, entry_competitor1 = Some (11, ''Bob''),
        entry_competitor2 = Some (13, ''Dee''), entry_winner_id = None\<rparr>,
       \<lparr>entry_match_id = 3, entry_round_name = Some ''Final'',
        entry_status = Some ''Pending'', entry_ring_id = None,
        entry_next_match_id = None, entry_competitor1 = Some (10, ''Ann''),
        entry_competitor2 = None, entry_winner_id = None\<rparr>])"
proof -
  have ne: "filter (\<lambda>m. division_id m = 1) (matches decided4) \<noteq> []"
    by (simp add: store_defs)
  have ms: "filter (\<lambda>m. division_id m = 1) (matches decided4) = matches decided4"
    by (simp add: store_defs)
  obtain r es where res: "get_bracket 1 decided4 = (r, es)"
    by (cases "get_bracket 1 decided4")
  from get_bracket_entries[OF ne] have r: "r = OK"
    and rel: "list_all2 (\<lambda>e m.
         entry_match_id e = match_id m \<and>
         entry_round_name e = round_name m \<and>
         entry_status e = status m \<and>
         entry_ring_id e = ring_id m \<and>
         entry_next_match_id e = next_match_id m \<and>
         entry_winner_id e = winner_id m \<and>
         entry_competitor1 e =
           (case competitor1_id m of
              None \<Rightarrow> None
            | Some i \<Rightarrow> if i = 0 then None
                        else map_option (\<lambda>c. (i, comp_name c)) (get_competitor i (competitors decided4))) \<and>
         entry_competitor2 e =
           (case competitor2_id m of
              None \<Rightarrow> None
            | Some i \<Rightarrow> if i = 0 then None
                        else map_option (\<lambda>c. (i, comp_name c)) (get_competitor i (competitors decided4))))
       es (matches decided4)"
    unfolding res ms by simp_all
  from rel have "es = [\<lparr>entry_match_id = 1, entry_round_name = Some ''Round 1'',
        entry_status = Some ''Completed'', entry_ring_id = None,
        entry_next_match_id = Some 3, entry_competitor1 = Some (10, ''Ann''),
        entry_competitor2 = Some (12, ''Cy''), entry_winner_id = Some 10\<rparr>,
       \<lparr>entry_match_id = 2, entry_round_name = Some ''Round 1'',
        entry_status = Some ''Pending'', entry_ring_id = None,
        entry_next_match_id = Some 3, entry_competitor1 = Some (11, ''Bob''),
        entry_competitor2 = Some (13, ''Dee''), entry_winner_id = None\<rparr>,
       \<lparr>entry_match_id = 3, entry_round_name = Some ''Final'',
        entry_status = Some ''Pending'', entry_ring_id = None,
        entry_next_match_id = None, entry_competitor1 = Some (10, ''Ann''),
        entry_competitor2 = None, entry_winner_id = None\<rparr>]"
    by (auto simp: store_defs list_all2_Cons2 get_competitor_def)
  with r res show ?thesis by simp
qed

lemma outsider2_reached:
  "record_result 1 (Some ''Completed'') (Some 20)
     ((outsider2 nm)\<lparr>matches := [pending_match 1 (Some 10) (Some 12) None ''Round 1'']\<rparr>)
   = (OK, outsider2 nm)"
  by (simp add: pending_match_def outsider2_def record_result_def bracket_advancement_def
      get_match_def update_match_def truthy_def storable_def)

text \<open>
  Claim C8 as stated fails for the winner: the entry holds \<^verbatim>\<open>winner_id\<close> only. Where
  the recorded winner occupies no slot of the division's matches (the handlers do not
  check that a winner is one of the two occupants), the reply is the same whatever the
  winner's name is, so it cannot contain that name.
\<close>

theorem winner_name_not_in_bracket:
  "map_option comp_name (get_competitor 20 (competitors (outsider2 ''Eve''))) = Some ''Eve'' \<and>
   map_option comp_name (get_competitor 20 (competitors (outsider2 ''Eva''))) = Some ''Eva'' \<and>
   map_option winner_id (get_match 1 (matches (outsider2 ''Eve''))) = Some (Some 20) \<and>
   map_option winner_id (get_match 1 (matches (outsider2 ''Eva''))) = Some (Some 20) \<and>
   get_bracket 1 (outsider2 ''Eve'') = get_bracket 1 (outsider2 ''Eva'') \<and>
   map entry_winner_id (snd (get_bracket 1 (outsider2 ''Eve''))) = [Some 20]"
  by (simp add: pending_match_def outsider2_def get_bracket_def bracket_data_def get_comp_data_def
      get_competitor_def get_match_def)

section \<open>Generating a bracket: properties\<close>

text \<open>The first round holds half the bracket size: fewer matches than competitors, and
  room for all of them.\<close>

lemma first_round_bounds:
  assumes "2 \<le> (N::nat)"
  shows "0 < 2 ^ ceillog2 N div (2::nat)"
    and "2 ^ ceillog2 N div (2::nat) < N"
    and "N \<le> 2 * (2 ^ ceillog2 N div 2)"
    and "2 * (2 ^ ceillog2 N div (2::nat)) = 2 ^ ceillog2 N"
proof -
  have pos: "0 < ceillog2 N"
  proof (rule ccontr)
    assume "\<not> 0 < ceillog2 N"
    then have "ceillog2 N = 0" by simp
    with le_two_power_ceillog2[of N] assms show False by simp
  qed
  then obtain k where k: "ceillog2 N = Suc k" by (cases "ceillog2 N") auto
  have up: "N \<le> 2 ^ ceillog2 N" by (rule le_two_power_ceillog2)
  have lo: "2 ^ ceillog2 N < 2 * N" using two_power_ceillog2_gt[of N] assms by simp
  show "0 < 2 ^ ceillog2 N div (2::nat)" by (simp add: k)
  show "2 ^ ceillog2 N div (2::nat) < N" using lo by (simp add: k)
  show "N \<le> 2 * (2 ^ ceillog2 N div 2)" using up by (simp add: k)
  show "2 * (2 ^ ceillog2 N div (2::nat)) = 2 ^ ceillog2 N" by (simp add: k)
qed

lemma deal_one_first_pass:
  assumes "i < n"
  shows "deal_one n ps i c = Inr (ps[i := (Some c, snd (ps ! i))])"
  using assms by (simp add: deal_one_def Let_def)

lemma deal_one_second_pass:
  assumes "n \<le> i" "i < 2 * n"
  shows "deal_one n ps i c = Inr (ps[i - n := (fst (ps ! (i - n)), Some c)])"
proof -
  have "i div n = 1" using assms by (simp add: div_nat_eqI)
  moreover have "i mod n = i - n" using assms by (simp add: mod_if)
  ultimately show ?thesis using assms by (simp add: deal_one_def Let_def)
qed

lemma deal_pairings:
  assumes "0 < n" "length ps = n" "i + length cs \<le> 2 * n"
  shows "\<exists>ps'. deal n i cs ps = Inr ps' \<and> length ps' = n \<and>
     (\<forall>j<n. fst (ps' ! j) = (if i \<le> j \<and> j < i + length cs then Some (cs ! (j - i)) else fst (ps ! j)) \<and>
            snd (ps' ! j) = (if i \<le> n + j \<and> n + j < i + length cs then Some (cs ! (n + j - i))
                             else snd (ps ! j)))"
  using assms
proof (induction cs arbitrary: i ps)
  case Nil
  then show ?case by auto
next
  case (Cons c cs)
  show ?case
  proof (cases "i < n")
    case True
    let ?ps1 = "ps[i := (Some c, snd (ps ! i))]"
    have one: "deal_one n ps i c = Inr ?ps1" by (rule deal_one_first_pass[OF True])
    from Cons.prems have "length ?ps1 = n" "Suc i + length cs \<le> 2 * n" by simp_all
    from Cons.IH[OF Cons.prems(1) this] obtain ps' where ps':
      "deal n (Suc i) cs ?ps1 = Inr ps'" "length ps' = n"
      "\<forall>j<n. fst (ps' ! j) = (if Suc i \<le> j \<and> j < Suc i + length cs then Some (cs ! (j - Suc i)) else fst (?ps1 ! j)) \<and>
            snd (ps' ! j) = (if Suc i \<le> n + j \<and> n + j < Suc i + length cs then Some (cs ! (n + j - Suc i))
                             else snd (?ps1 ! j))"
      by blast
    have "fst (ps' ! j) = (if i \<le> j \<and> j < i + length (c # cs) then Some ((c # cs) ! (j - i)) else fst (ps ! j)) \<and>
            snd (ps' ! j) = (if i \<le> n + j \<and> n + j < i + length (c # cs) then Some ((c # cs) ! (n + j - i))
                             else snd (ps ! j))" if "j < n" for j
    proof -
      from ps'(3) that have f: "fst (ps' ! j) = (if Suc i \<le> j \<and> j < Suc i + length cs then Some (cs ! (j - Suc i)) else fst (?ps1 ! j))"
        and s: "snd (ps' ! j) = (if Suc i \<le> n + j \<and> n + j < Suc i + length cs then Some (cs ! (n + j - Suc i))
                             else snd (?ps1 ! j))" by simp_all
      have sn: "snd (?ps1 ! j) = snd (ps ! j)"
        using Cons.prems(2) True by (cases "j = i") simp_all
      have fs: "fst (?ps1 ! j) = (if j = i then Some c else fst (ps ! j))"
        using Cons.prems(2) True by (cases "j = i") simp_all
      have idx: "n + j - i = Suc (n + j - Suc i)" using True by simp
      show ?thesis
        unfolding f s sn fs using True that
        by (auto simp: nth_Cons' idx)
    qed
    with ps'(1,2) one show ?thesis by simp
  next
    case False
    let ?ps1 = "ps[i - n := (fst (ps ! (i - n)), Some c)]"
    from False Cons.prems have lt: "n \<le> i" "i < 2 * n" by simp_all
    have one: "deal_one n ps i c = Inr ?ps1" by (rule deal_one_second_pass[OF lt])
    from Cons.prems have "length ?ps1 = n" "Suc i + length cs \<le> 2 * n" by simp_all
    from Cons.IH[OF Cons.prems(1) this] obtain ps' where ps':
      "deal n (Suc i) cs ?ps1 = Inr ps'" "length ps' = n"
      "\<forall>j<n. fst (ps' ! j) = (if Suc i \<le> j \<and> j < Suc i + length cs then Some (cs ! (j - Suc i)) else fst (?ps1 ! j)) \<and>
            snd (ps' ! j) = (if Suc i \<le> n + j \<and> n + j < Suc i + length cs then Some (cs ! (n + j - Suc i))
                             else snd (?ps1 ! j))"
      by blast
    have "fst (ps' ! j) = (if i \<le> j \<and> j < i + length (c # cs) then Some ((c # cs) ! (j - i)) else fst (ps ! j)) \<and>
            snd (ps' ! j) = (if i \<le> n + j \<and> n + j < i + length (c # cs) then Some ((c # cs) ! (n + j - i))
                             else snd (ps ! j))" if "j < n" for j
    proof -
      from ps'(3) that have f: "fst (ps' ! j) = (if Suc i \<le> j \<and> j < Suc i + length cs then Some (cs ! (j - Suc i)) else fst (?ps1 ! j))"
        and s: "snd (ps' ! j) = (if Suc i \<le> n + j \<and> n + j < Suc i + length cs then Some (cs ! (n + j - Suc i))
                             else snd (?ps1 ! j))" by simp_all
      have fs: "fst (?ps1 ! j) = fst (ps ! j)"
        using Cons.prems(2) lt by (cases "j = i - n") simp_all
      have sn: "snd (?ps1 ! j) = (if j = i - n then Some c else snd (ps ! j))"
        using Cons.prems(2) lt by (cases "j = i - n") simp_all
      have idx: "i < n + j \<Longrightarrow> n + j - i = Suc (n + j - Suc i)" by simp
      show ?thesis
        unfolding f s sn fs using lt that
        by (auto simp: nth_Cons' idx)
    qed
    with ps'(1,2) one show ?thesis by simp
  qed
qed

text \<open>Rows already in the table keep everything but their link; each pass adds
  later-round rows only.\<close>

lemma unlinked_fields [simp]:
  "match_id (unlinked m) = match_id m"
  "division_id (unlinked m) = division_id m"
  "competitor1_id (unlinked m) = competitor1_id m"
  "competitor2_id (unlinked m) = competitor2_id m"
  "winner_id (unlinked m) = winner_id m"
  "status (unlinked m) = status m"
  "round_name (unlinked m) = round_name m"
  by (simp_all add: unlinked_def)

lemma new_id_fresh: "m \<in> set ms \<Longrightarrow> match_id m < new_id ms"
  by (induction ms) (auto simp: new_id_def)

lemma new_id_unlinked: "map unlinked t = us \<Longrightarrow> u \<in> set us \<Longrightarrow> match_id u \<noteq> new_id t"
  using new_id_fresh by fastforce

lemma unlinked_link:
  "map unlinked (update_match i (\<lambda>x. x\<lparr>next_match_id := v\<rparr>) t) = map unlinked t"
  by (induction t) (simp_all add: update_match_def unlinked_def)

lemma unlinked_slot1:
  "map unlinked (update_match i (\<lambda>x. x\<lparr>competitor1_id := v\<rparr>) t) =
   update_match i (\<lambda>x. x\<lparr>competitor1_id := v\<rparr>) (map unlinked t)"
  by (induction t) (simp_all add: update_match_def unlinked_def)

lemma unlinked_slot2:
  "map unlinked (update_match i (\<lambda>x. x\<lparr>competitor2_id := v\<rparr>) t) =
   update_match i (\<lambda>x. x\<lparr>competitor2_id := v\<rparr>) (map unlinked t)"
  by (induction t) (simp_all add: update_match_def unlinked_def)

lemma update_match_last:
  assumes "\<forall>u\<in>set us. match_id u \<noteq> i" "match_id x = i"
  shows "update_match i f (us @ [x]) = us @ [f x]"
  using assms by (induction us) (simp_all add: update_match_def)

lemma link_pair_row:
  "\<exists>x. map unlinked (fst (link_pair div_id rn p1 p2 tbl)) = map unlinked tbl @ [x] \<and>
       later_row div_id rn x"
proof -
  define nid where "nid = new_id tbl"
  define new_match where "new_match = \<lparr>match_id = nid, division_id = div_id, ring_id = None,
               competitor1_id = None, competitor2_id = None,
               winner_id = None, next_match_id = None, match_number = None,
               status = Some ''Pending'', round_name = Some rn\<rparr>"
  define t3 where "t3 = update_match p2 (\<lambda>x. x\<lparr>next_match_id := Some nid\<rparr>)
     (update_match p1 (\<lambda>x. x\<lparr>next_match_id := Some nid\<rparr>) (tbl @ [new_match]))"
  define t4 where "t4 = (if truthy (winner_of p1 t3)
                then update_match nid (\<lambda>x. x\<lparr>competitor1_id := winner_of p1 t3\<rparr>) t3
                else t3)"
  define t5 where "t5 = (if truthy (winner_of p2 t4)
                then update_match nid (\<lambda>x. x\<lparr>competitor2_id := winner_of p2 t4\<rparr>) t4
                else t4)"
  have out: "fst (link_pair div_id rn p1 p2 tbl) = t5"
    by (simp add: link_pair_def Let_def nid_def new_match_def t3_def t4_def t5_def)
  have fresh: "\<forall>u\<in>set (map unlinked tbl). match_id u \<noteq> nid"
    unfolding nid_def using new_id_unlinked by blast
  have u3: "map unlinked t3 = map unlinked tbl @ [new_match]"
    by (simp add: t3_def unlinked_link) (simp add: unlinked_def new_match_def)
  have "\<exists>x. map unlinked t4 = map unlinked tbl @ [x] \<and> match_id x = nid \<and> later_row div_id rn x"
    using fresh u3
    by (auto simp: t4_def unlinked_slot1 update_match_last new_match_def later_row_def)
  then obtain x4 where x4: "map unlinked t4 = map unlinked tbl @ [x4]" "match_id x4 = nid"
      "later_row div_id rn x4" by blast
  have "\<exists>x. map unlinked t5 = map unlinked tbl @ [x] \<and> later_row div_id rn x"
    using fresh x4
    by (auto simp: t5_def unlinked_slot2 update_match_last later_row_def)
  then show ?thesis unfolding out .
qed

lemma next_round_rows:
  assumes "next_round div_id rn cur tbl = Inr (t', ids)"
  shows "\<exists>us. map unlinked t' = map unlinked tbl @ us \<and> length us = length ids \<and>
           length cur = 2 * length ids \<and> list_all (later_row div_id rn) us"
  using assms
proof (induction div_id rn cur tbl arbitrary: t' ids rule: next_round.induct)
  case (1 div_id rn tbl)
  then show ?case by simp
next
  case (2 div_id rn prev_match1 tbl)
  then show ?case by simp
next
  case (3 div_id rn prev_match1 prev_match2 rest tbl)
  obtain t nid where lp: "link_pair div_id rn prev_match1 prev_match2 tbl = (t, nid)"
    by (cases "link_pair div_id rn prev_match1 prev_match2 tbl")
  from "3.prems" lp obtain ids' where rec: "next_round div_id rn rest t = Inr (t', ids')"
    and ids: "ids = nid # ids'"
    by (auto split: sum.splits prod.splits)
  from link_pair_row[of div_id rn prev_match1 prev_match2 tbl] lp
  obtain x where x: "map unlinked t = map unlinked tbl @ [x]" "later_row div_id rn x"
    by auto
  from "3.IH"[OF lp[symmetric] rec] obtain us where us: "map unlinked t' = map unlinked t @ us"
     "length us = length ids'" "length rest = 2 * length ids'" "list_all (later_row div_id rn) us"
    by blast
  show ?case
    by (rule exI[of _ "x # us"]) (simp add: us x ids)
qed

lemma next_round_even:
  assumes "even (length cur)"
  shows "\<exists>r. next_round div_id rn cur tbl = Inr r"
  using assms
proof (induction div_id rn cur tbl rule: next_round.induct)
  case (3 div_id rn prev_match1 prev_match2 rest tbl)
  obtain t nid where lp: "link_pair div_id rn prev_match1 prev_match2 tbl = (t, nid)"
    by (cases "link_pair div_id rn prev_match1 prev_match2 tbl")
  from "3.prems" have "even (length rest)" by simp
  from "3.IH"[OF lp[symmetric] this] obtain r where "next_round div_id rn rest t = Inr r" by blast
  with lp show ?case by (cases r) simp
qed simp_all

lemma str_nat_nonempty: "str_nat n \<noteq> []"
  by (subst str_nat.simps) simp

lemma digit_one:
  assumes "n < 10" "char_of (48 + n) = CHR ''1''"
  shows "n = (1::nat)"
proof -
  from assms(2) have "(of_char (char_of (48 + n)) :: nat) = of_char (CHR ''1'')"
    by simp
  then have "(48 + n) mod 256 = 49" by simp
  moreover from assms(1) have "(48 + n) mod 256 = 48 + n" by simp
  ultimately show ?thesis by simp
qed

lemma str_nat_not_one:
  assumes "2 \<le> n"
  shows "str_nat n \<noteq> ''1''"
proof (cases "n < 10")
  case True
  then have "str_nat n = [char_of (48 + n)]"
    by (subst str_nat.simps) simp
  moreover have "char_of (48 + n) \<noteq> CHR ''1''"
    using digit_one[OF True] assms by auto
  ultimately show ?thesis by simp
next
  case False
  then have "str_nat n = str_nat (n div 10) @ [char_of (48 + n mod 10)]"
    by (subst str_nat.simps) simp
  then have "length (str_nat n) = Suc (length (str_nat (n div 10)))" by simp
  moreover have "0 < length (str_nat (n div 10))" using str_nat_nonempty by simp
  ultimately show ?thesis by auto
qed

lemma r_name_not_round1:
  assumes "2 \<le> round_num"
  shows "r_name len round_num \<noteq> ''Round 1''"
  using str_nat_not_one[OF assms] by (simp add: r_name_def)

lemma build_rounds_rows:
  assumes "length cur = 2 ^ j" "2 \<le> round_num"
  shows "\<exists>t' us. build_rounds div_id round_num cur tbl = Inr t' \<and>
           map unlinked t' = map unlinked tbl @ us \<and> length us = 2 ^ j - 1 \<and>
           list_all (\<lambda>u. \<exists>rn. later_row div_id rn u \<and> rn \<noteq> ''Round 1'') us"
  using assms
proof (induction j arbitrary: cur tbl round_num)
  case 0
  then have "build_rounds div_id round_num cur tbl = Inr tbl"
    by (subst build_rounds.simps) simp
  then show ?case by simp
next
  case (Suc j)
  let ?rn = "r_name (length cur) round_num"
  from Suc.prems have long: "1 < length cur" and ev: "even (length cur)"
    by (simp_all add: Suc_lessI)
  from next_round_even[OF ev] obtain t1 nxt where
    nr: "next_round div_id ?rn cur tbl = Inr (t1, nxt)"
    by (metis surj_pair)
  from next_round_rows[OF nr] obtain us1 where us1:
    "map unlinked t1 = map unlinked tbl @ us1" "length us1 = length nxt"
    "length cur = 2 * length nxt" "list_all (later_row div_id ?rn) us1"
    by blast
  from us1(3) Suc.prems(1) have len: "length nxt = 2 ^ j" by simp
  from Suc.prems(2) have "2 \<le> Suc round_num" by simp
  from Suc.IH[OF len this] obtain t' us2 where rec:
    "build_rounds div_id (Suc round_num) nxt t1 = Inr t'"
    "map unlinked t' = map unlinked t1 @ us2" "length us2 = 2 ^ j - 1"
    "list_all (\<lambda>u. \<exists>rn. later_row div_id rn u \<and> rn \<noteq> ''Round 1'') us2"
    by blast
  have out: "build_rounds div_id round_num cur tbl = Inr t'"
    using long nr rec(1) by (subst build_rounds.simps) simp
  have named: "list_all (\<lambda>u. \<exists>rn. later_row div_id rn u \<and> rn \<noteq> ''Round 1'') us1"
    using us1(4) r_name_not_round1[OF Suc.prems(2), of "length cur"]
    by (auto simp: list_all_iff)
  have "length (us1 @ us2) = 2 ^ Suc j - 1"
    using us1(2) len rec(3) by simp
  with out rec(2) us1(1) named rec(4) show ?case
    by (intro exI[of _ t'] exI[of _ "us1 @ us2"]) simp
qed

lemma create_round1_rows:
  "\<exists>rows. fst (create_round1 div_id ps tbl) = tbl @ rows \<and>
      length (snd (create_round1 div_id ps tbl)) = length ps \<and>
      list_all2 (\<lambda>r p. \<exists>mid. r = round1_match mid div_id p) rows ps"
proof (induction ps arbitrary: tbl)
  case Nil
  then show ?case by simp
next
  case (Cons p ps)
  let ?t = "tbl @ [round1_match (new_id tbl) div_id p]"
  from Cons[of ?t] obtain rows where rows: "fst (create_round1 div_id ps ?t) = ?t @ rows"
    "length (snd (create_round1 div_id ps ?t)) = length ps"
    "list_all2 (\<lambda>r p. \<exists>mid. r = round1_match mid div_id p) rows ps"
    by blast
  show ?case
    by (rule exI[of _ "round1_match (new_id tbl) div_id p # rows"])
       (use rows in \<open>auto simp: Let_def\<close>)
qed

lemma dealt_pairings:
  assumes "0 < n" "n \<le> length xs" "length xs \<le> 2 * n"
  shows "deal n 0 xs (replicate n (None, None)) =
     Inr (map (\<lambda>j. (Some (xs ! j), if n + j < length xs then Some (xs ! (n + j)) else None)) [0..<n])"
proof -
  from deal_pairings[of n "replicate n (None, None)" 0 xs] assms
  obtain ps where ps: "deal n 0 xs (replicate n (None, None)) = Inr ps" "length ps = n"
    "\<forall>j<n. fst (ps ! j) = (if j < length xs then Some (xs ! j) else None) \<and>
            snd (ps ! j) = (if n + j < length xs then Some (xs ! (n + j)) else None)"
    by auto
  have "ps = map (\<lambda>j. (Some (xs ! j), if n + j < length xs then Some (xs ! (n + j)) else None)) [0..<n]"
  proof (rule nth_equalityI)
    show "length ps = length (map (\<lambda>j. (Some (xs ! j), if n + j < length xs then Some (xs ! (n + j)) else None)) [0..<n])"
      using ps(2) by simp
  next
    fix j assume "j < length ps"
    with ps(2,3) assms(2) show "ps ! j = map (\<lambda>j. (Some (xs ! j), if n + j < length xs then Some (xs ! (n + j)) else None)) [0..<n] ! j"
      by (auto simp: prod_eq_iff)
  qed
  with ps(1) show ?thesis by simp
qed

lemma count_from: "length (filter (\<lambda>j. a \<le> j) [0..<n]) = n - a"
  by (induction n) (auto simp: Suc_diff_le)

lemma dealt_byes:
  "length (filter (\<lambda>p. snd p = None)
     (map (\<lambda>j. (Some (xs ! j), if n + j < N then Some (xs ! (n + j)) else None)) [0..<n]))
   = n - (N - n)"
proof -
  have "(\<lambda>j. snd (Some (xs ! j), if n + j < N then Some (xs ! (n + j)) else None) = None)
        = (\<lambda>j. N - n \<le> j)"
    by (auto simp: fun_eq_iff)
  then show ?thesis
    by (simp add: filter_map comp_def count_from)
qed

lemma filter_length_rel:
  assumes "list_all2 R xs ys" "\<And>x y. R x y \<Longrightarrow> P x = Q y"
  shows "length (filter P xs) = length (filter Q ys)"
  using assms by (induction rule: list_all2_induct) auto

text \<open>The table after a successful generation, for a shuffle that keeps the length.\<close>

lemma generate_bracket_rows:
  assumes N: "2 \<le> length (competitors_in div_id d)"
    and len: "length (shuffle (competitors_in div_id d)) = length (competitors_in div_id d)"
  defines "n \<equiv> 2 ^ ceillog2 (length (competitors_in div_id d)) div 2"
  defines "xs \<equiv> shuffle (competitors_in div_id d)"
  defines "ps \<equiv> map (\<lambda>j. (Some (xs ! j), if n + j < length xs then Some (xs ! (n + j)) else None)) [0..<n]"
  shows "\<exists>t' rows us.
     deal n 0 xs (replicate n (None, None)) = Inr ps \<and>
     generate_bracket shuffle div_id d = (OK, d\<lparr>matches := t'\<rparr>) \<and>
     map unlinked t' = map unlinked (matches d) @ rows @ us \<and>
     list_all2 (\<lambda>r p. \<exists>mid. r = round1_match mid div_id p) rows ps \<and>
     length us = n - 1 \<and>
     list_all (\<lambda>u. \<exists>rn. later_row div_id rn u \<and> rn \<noteq> ''Round 1'') us"
proof -
  let ?N = "length (competitors_in div_id d)"
  note b = first_round_bounds[OF N]
  have n0: "0 < n" and nN: "n \<le> length xs" and N2: "length xs \<le> 2 * n"
    using b len by (simp_all add: n_def xs_def)
  have dl: "deal n 0 xs (replicate n (None, None)) = Inr ps"
    unfolding ps_def by (rule dealt_pairings[OF n0 nN N2])
  obtain t1 cur where c1: "create_round1 div_id ps (matches d) = (t1, cur)"
    by (cases "create_round1 div_id ps (matches d)")
  from create_round1_rows[of div_id ps "matches d"] c1 obtain rows where rows:
    "t1 = matches d @ rows" "length cur = length ps"
    "list_all2 (\<lambda>r p. \<exists>mid. r = round1_match mid div_id p) rows ps"
    by auto
  obtain k where k: "ceillog2 ?N = Suc k"
    using b(1) by (cases "ceillog2 ?N") simp_all
  have curlen: "length cur = 2 ^ k"
    using rows(2) by (simp add: ps_def n_def k)
  from build_rounds_rows[OF curlen, of 2 div_id t1] obtain t' us where br:
    "build_rounds div_id 2 cur t1 = Inr t'"
    "map unlinked t' = map unlinked t1 @ us" "length us = 2 ^ k - 1"
    "list_all (\<lambda>u. \<exists>rn. later_row div_id rn u \<and> rn \<noteq> ''Round 1'') us"
    by auto
  have unl: "map unlinked rows = rows"
  proof -
    have "unlinked r = r" if "r \<in> set rows" for r
    proof -
      from rows(3) that have "\<exists>p mid. r = round1_match mid div_id p"
        by (induction rule: list_all2_induct) auto
      then obtain p mid where "r = round1_match mid div_id p" by blast
      then show ?thesis by (simp add: round1_match_def unlinked_def Let_def)
    qed
    then show ?thesis by (simp add: map_idI)
  qed
  have gen: "generate_bracket shuffle div_id d = (OK, d\<lparr>matches := t'\<rparr>)"
    using N dl c1 br(1)
    by (simp add: generate_bracket_def Let_def n_def[symmetric] xs_def[symmetric])
  have "map unlinked t' = map unlinked (matches d) @ rows @ us"
    using br(2) rows(1) unl by simp
  moreover have "length us = n - 1" using br(3) by (simp add: n_def k)
  ultimately show ?thesis using dl gen rows(3) br(4) by blast
qed

lemma created_rows:
  assumes "map unlinked t' = map unlinked old @ new"
  shows "map unlinked (drop (length old) t') = new" "length t' = length old + length new"
proof -
  from assms have "drop (length old) (map unlinked t') = new" by simp
  then show "map unlinked (drop (length old) t') = new" by (simp add: drop_map)
  from assms have "length (map unlinked t') = length (map unlinked old @ new)" by simp
  then show "length t' = length old + length new" by simp
qed

text \<open>
  Claim C1, as amended. For a division of \<open>N \<ge> 2\<close> competitors \<^verbatim>\<open>generate_bracket\<close>
  succeeds and adds exactly \<open>bracketSize - 1\<close> match records over all rounds, where
  \<open>bracketSize = 2 ^ ceil (log2 N)\<close>: 1 match for 2 competitors, 3 for 3, 3 for 4 and
  7 for 5. The shuffle is any permutation.
\<close>

theorem bracket_size_matches:
  assumes "2 \<le> length (competitors_in div_id d)"
    and "\<forall>xs. mset (shuffle xs) = mset xs"
  shows "fst (generate_bracket shuffle div_id d) = OK \<and>
     length (matches (snd (generate_bracket shuffle div_id d))) =
       length (matches d) + (2 ^ ceillog2 (length (competitors_in div_id d)) - 1)"
proof -
  let ?N = "length (competitors_in div_id d)"
  let ?n = "2 ^ ceillog2 ?N div (2::nat)"
  have len: "length (shuffle (competitors_in div_id d)) = ?N"
    using assms(2) by (metis mset_eq_length)
  from generate_bracket_rows[where shuffle = shuffle and div_id = div_id and d = d, OF assms(1) len]
  obtain t' rows us where r:
    "generate_bracket shuffle div_id d = (OK, d\<lparr>matches := t'\<rparr>)"
    "map unlinked t' = map unlinked (matches d) @ rows @ us"
    "list_all2 (\<lambda>r p. \<exists>mid. r = round1_match mid div_id p) rows
       (map (\<lambda>j. (Some (shuffle (competitors_in div_id d) ! j),
                  if ?n + j < length (shuffle (competitors_in div_id d))
                  then Some (shuffle (competitors_in div_id d) ! (?n + j)) else None)) [0..<?n])"
    "length us = ?n - 1"
    by blast
  from r(3) have rows: "length rows = ?n" by (simp add: list_all2_lengthD)
  have total: "length t' = length (matches d) + (?n + (?n - 1))"
    using created_rows(2)[OF r(2)] rows r(4) by simp
  have "?n + (?n - 1) = 2 * ?n - 1"
    using first_round_bounds(1)[OF assms(1)] by arith
  also have "\<dots> = 2 ^ ceillog2 ?N - 1"
    using first_round_bounds(4)[OF assms(1)] by simp
  finally have "length t' = length (matches d) + (2 ^ ceillog2 ?N - 1)"
    using total by simp
  with r(1) show ?thesis by simp
qed

lemma ceillog2_small: "ceillog2 3 = 2" "ceillog2 4 = 2" "ceillog2 5 = 3"
  by (rule ceillog2_eqI; simp)+

lemma entrants_count: "n \<le> 5 \<Longrightarrow> length (competitors_in 1 (entrants n)) = n"
  by (simp add: entrants_def competitors_in_def roster4_def take_Cons' min_def)

text \<open>The theorem at the divisions of 2, 3, 4 and 5 competitors.\<close>

theorem bracket_size_matches_witness:
  "fst (generate_bracket (\<lambda>xs. xs) 1 (entrants 5)) = OK \<and>
   length (matches (snd (generate_bracket (\<lambda>xs. xs) 1 (entrants 2)))) = 1 \<and>
   length (matches (snd (generate_bracket (\<lambda>xs. xs) 1 (entrants 3)))) = 3 \<and>
   length (matches (snd (generate_bracket (\<lambda>xs. xs) 1 (entrants 4)))) = 3 \<and>
   length (matches (snd (generate_bracket (\<lambda>xs. xs) 1 (entrants 5)))) = 7"
proof -
  have sh: "\<forall>xs::competitor list. mset ((\<lambda>xs. xs) xs) = mset xs" by simp
  have n: "2 \<le> length (competitors_in 1 (entrants 2))" "2 \<le> length (competitors_in 1 (entrants 3))"
    "2 \<le> length (competitors_in 1 (entrants 4))" "2 \<le> length (competitors_in 1 (entrants 5))"
    by (simp_all add: entrants_count)
  have m: "matches (entrants k) = []" for k by (simp add: entrants_def)
  from bracket_size_matches[OF n(1) sh] bracket_size_matches[OF n(2) sh]
    bracket_size_matches[OF n(3) sh] bracket_size_matches[OF n(4) sh]
  show ?thesis
    by (simp add: entrants_count ceillog2_small m)
qed

text \<open>
  Claim C1 as stated fails whenever \<open>N\<close> is not a power of two: three competitors get
  three matches (a bracket of four with one bye), not \<open>N - 1 = 2\<close>.
\<close>

theorem three_competitors_three_matches:
  "length (competitors_in 1 (entrants 3)) = 3 \<and>
   length (matches (snd (generate_bracket (\<lambda>xs. xs) 1 (entrants 3)))) = 3"
  by code_simp

lemma build_rounds_single: "length cur \<le> 1 \<Longrightarrow> build_rounds div_id rnum cur tbl = Inr tbl"
  by (subst build_rounds.simps) simp

text \<open>
  Claim C3, as amended. For a division of exactly two competitors \<^verbatim>\<open>generate_bracket\<close>
  adds a single match, and its round name is \<^verbatim>\<open>Round 1\<close>: the loop that names the
  later rounds never runs, so no match of that bracket is labelled \<^verbatim>\<open>Final\<close>. The
  match has no next match.
\<close>

theorem two_competitors_round1:
  assumes "length (competitors_in div_id d) = 2"
    and "\<forall>xs. mset (shuffle xs) = mset xs"
  shows "\<exists>m. generate_bracket shuffle div_id d = (OK, d\<lparr>matches := matches d @ [m]\<rparr>) \<and>
           round_name m = Some ''Round 1'' \<and> round_name m \<noteq> Some ''Final'' \<and>
           next_match_id m = None"
proof -
  have "length (shuffle (competitors_in div_id d)) = 2"
    using assms by (metis mset_eq_length)
  then obtain a b where ab: "shuffle (competitors_in div_id d) = [a, b]"
    by (auto simp: length_Suc_conv numeral_2_eq_2)
  have "generate_bracket shuffle div_id d =
      (OK, d\<lparr>matches := matches d @
          [round1_match (new_id (matches d)) div_id (Some a, Some b)]\<rparr>)"
    using assms(1) ab
    by (simp add: generate_bracket_def Let_def deal_one_def build_rounds_single)
  moreover have "round_name (round1_match (new_id (matches d)) div_id (Some a, Some b)) = Some ''Round 1''"
    "next_match_id (round1_match (new_id (matches d)) div_id (Some a, Some b)) = None"
    by (simp_all add: round1_match_def bye_branch_def Let_def)
  ultimately show ?thesis by auto
qed

theorem two_competitors_round1_witness:
  "\<exists>m. generate_bracket (\<lambda>xs. xs) 1 (entrants 2) = (OK, (entrants 2)\<lparr>matches := [m]\<rparr>) \<and>
       round_name m = Some ''Round 1'' \<and> next_match_id m = None"
proof -
  have n: "length (competitors_in 1 (entrants 2)) = 2" by (simp add: entrants_count)
  have sh: "\<forall>xs::competitor list. mset ((\<lambda>xs. xs) xs) = mset xs" by simp
  have m: "matches (entrants 2) = []" by (simp add: entrants_def)
  from two_competitors_round1[OF n sh] show ?thesis
    unfolding m by auto
qed

text \<open>
  Claim C3 as stated fails: the only match of a two-competitor bracket is labelled
  \<^verbatim>\<open>Round 1\<close>, not \<^verbatim>\<open>Final\<close>.
\<close>

theorem two_competitors_not_final:
  "length (competitors_in 1 (entrants 2)) = 2 \<and>
   map round_name (matches (snd (generate_bracket (\<lambda>xs. xs) 1 (entrants 2)))) = [Some ''Round 1'']"
  by code_simp

lemma round1_match_fields:
  "round_name (round1_match mid div_id p) = Some ''Round 1''"
  "competitor1_id (round1_match mid div_id p) = map_option comp_id (fst p)"
  "competitor2_id (round1_match mid div_id p) = map_option comp_id (snd p)"
  "status (round1_match mid div_id p) =
     (if bye_branch p = 0 then Some ''Pending'' else Some ''Completed (Bye)'')"
  "winner_id (round1_match mid div_id p) =
     (if bye_branch p = 1 then map_option comp_id (fst p)
      else if bye_branch p = 2 then map_option comp_id (snd p) else None)"
  by (auto simp: round1_match_def Let_def bye_branch_def)

lemma dealt_branch:
  "bye_branch (Some a, sb) = (if sb = None then 1 else 0)"
  by (simp add: bye_branch_def)

text \<open>The rows a generation adds, with their links blanked: the round-1 rows of the
  dealt pairings, then later-round rows.\<close>

lemma generate_bracket_created:
  assumes N: "2 \<le> length (competitors_in div_id d)"
    and sh: "\<forall>xs. mset (shuffle xs) = mset xs"
  defines "n \<equiv> 2 ^ ceillog2 (length (competitors_in div_id d)) div 2"
  defines "xs \<equiv> shuffle (competitors_in div_id d)"
  defines "ps \<equiv> map (\<lambda>j. (Some (xs ! j), if n + j < length xs then Some (xs ! (n + j)) else None)) [0..<n]"
  defines "created \<equiv> drop (length (matches d)) (matches (snd (generate_bracket shuffle div_id d)))"
  shows "\<exists>rows us.
     deal n 0 xs (replicate n (None, None)) = Inr ps \<and>
     map unlinked created = rows @ us \<and>
     list_all2 (\<lambda>r p. \<exists>mid. r = round1_match mid div_id p) rows ps \<and>
     list_all (\<lambda>u. \<exists>rn. later_row div_id rn u \<and> rn \<noteq> ''Round 1'') us"
proof -
  have len: "length (shuffle (competitors_in div_id d)) = length (competitors_in div_id d)"
    using sh by (metis mset_eq_length)
  from generate_bracket_rows[where shuffle = shuffle and div_id = div_id and d = d, OF N len]
  obtain t' rows us where r:
    "deal n 0 xs (replicate n (None, None)) = Inr ps"
    "generate_bracket shuffle div_id d = (OK, d\<lparr>matches := t'\<rparr>)"
    "map unlinked t' = map unlinked (matches d) @ rows @ us"
    "list_all2 (\<lambda>r p. \<exists>mid. r = round1_match mid div_id p) rows ps"
    "list_all (\<lambda>u. \<exists>rn. later_row div_id rn u \<and> rn \<noteq> ''Round 1'') us"
    unfolding n_def xs_def ps_def by blast
  have "map unlinked created = rows @ us"
    unfolding created_def r(2) using created_rows(1)[OF r(3)] by simp
  with r(1,4,5) show ?thesis by blast
qed


lemma list_all2_partner:
  assumes "list_all2 R xs ys" "x \<in> set xs"
  shows "\<exists>y\<in>set ys. R x y"
  using assms by (induction rule: list_all2_induct) auto

lemma created_row_cases:
  assumes N: "2 \<le> length (competitors_in div_id d)"
    and sh: "\<forall>xs. mset (shuffle xs) = mset xs"
    and m: "m \<in> set (drop (length (matches d)) (matches (snd (generate_bracket shuffle div_id d))))"
  shows "(\<exists>mid a sb. unlinked m = round1_match mid div_id (Some a, sb)) \<or>
         (\<exists>rn. later_row div_id rn (unlinked m) \<and> rn \<noteq> ''Round 1'')"
proof -
  let ?n = "2 ^ ceillog2 (length (competitors_in div_id d)) div (2::nat)"
  let ?xs = "shuffle (competitors_in div_id d)"
  let ?ps = "map (\<lambda>j. (Some (?xs ! j), if ?n + j < length ?xs then Some (?xs ! (?n + j)) else None)) [0..<?n]"
  from generate_bracket_created[where shuffle = shuffle and div_id = div_id and d = d, OF N sh]
  obtain rows us where r:
    "map unlinked (drop (length (matches d)) (matches (snd (generate_bracket shuffle div_id d)))) = rows @ us"
    "list_all2 (\<lambda>r p. \<exists>mid. r = round1_match mid div_id p) rows ?ps"
    "list_all (\<lambda>u. \<exists>rn. later_row div_id rn u \<and> rn \<noteq> ''Round 1'') us"
    by blast
  have ps: "\<exists>a sb. p = (Some a, sb)" if "p \<in> set ?ps" for p
    using that by (simp add: image_iff) blast
  from m have "unlinked m \<in> set (rows @ us)"
    unfolding r(1)[symmetric] by simp
  then consider "unlinked m \<in> set rows" | "unlinked m \<in> set us" by auto
  then show ?thesis
  proof cases
    case 1
    from list_all2_partner[OF r(2) 1] obtain p mid where
      "p \<in> set ?ps" "unlinked m = round1_match mid div_id p" by blast
    with ps[of p] show ?thesis by blast
  next
    case 2
    with r(3) show ?thesis by (simp add: list_all_iff)
  qed
qed

text \<open>
  Claim C4. For a division of \<open>N \<ge> 2\<close> competitors, among the matches
  \<^verbatim>\<open>generate_bracket\<close> adds, the round-1 matches with status \<^verbatim>\<open>Completed (Bye)\<close>
  number \<open>bracketSize - N\<close>, where \<open>bracketSize = 2 ^ ceil (log2 N)\<close>; and every added
  match with that status has exactly one occupied slot, whose competitor is its winner.
\<close>

theorem byes_fill_the_bracket:
  assumes N: "2 \<le> length (competitors_in div_id d)"
    and sh: "\<forall>xs. mset (shuffle xs) = mset xs"
  shows "length (filter (\<lambda>m. round_name m = Some ''Round 1'' \<and> status m = Some ''Completed (Bye)'')
            (drop (length (matches d)) (matches (snd (generate_bracket shuffle div_id d)))))
         = 2 ^ ceillog2 (length (competitors_in div_id d)) - length (competitors_in div_id d) \<and>
     (\<forall>m\<in>set (drop (length (matches d)) (matches (snd (generate_bracket shuffle div_id d)))).
         status m = Some ''Completed (Bye)'' \<longrightarrow>
           (competitor1_id m \<noteq> None \<and> competitor2_id m = None \<and> winner_id m = competitor1_id m) \<or>
           (competitor1_id m = None \<and> competitor2_id m \<noteq> None \<and> winner_id m = competitor2_id m))"
proof -
  let ?N = "length (competitors_in div_id d)"
  let ?n = "2 ^ ceillog2 ?N div (2::nat)"
  let ?created = "drop (length (matches d)) (matches (snd (generate_bracket shuffle div_id d)))"
  let ?bye = "\<lambda>m. round_name m = Some ''Round 1'' \<and> status m = Some ''Completed (Bye)''"
  let ?xs = "shuffle (competitors_in div_id d)"
  let ?ps = "map (\<lambda>j. (Some (?xs ! j), if ?n + j < length ?xs then Some (?xs ! (?n + j)) else None)) [0..<?n]"
  have len: "length ?xs = ?N" using sh by (metis mset_eq_length)
  from generate_bracket_created[where shuffle = shuffle and div_id = div_id and d = d, OF N sh]
  obtain rows us where r:
    "map unlinked ?created = rows @ us"
    "list_all2 (\<lambda>r p. \<exists>mid. r = round1_match mid div_id p) rows ?ps"
    "list_all (\<lambda>u. \<exists>rn. later_row div_id rn u \<and> rn \<noteq> ''Round 1'') us"
    by blast
  have "length (filter ?bye ?created) = length (filter ?bye (map unlinked ?created))"
    by (simp add: filter_map comp_def)
  also have "\<dots> = length (filter ?bye rows) + length (filter ?bye us)"
    unfolding r(1) by simp
  also have "filter ?bye us = []"
    using r(3) by (auto simp: filter_empty_conv list_all_iff later_row_def)
  also have "length (filter ?bye rows) = length (filter (\<lambda>p. bye_branch p \<noteq> 0) ?ps)"
    by (rule filter_length_rel[OF r(2)]) (auto simp: round1_match_fields split: if_splits)
  also have "\<dots> = length (filter (\<lambda>p. snd p = None) ?ps)"
    by (rule arg_cong[where f = length], rule filter_cong) (auto simp: dealt_branch)
  also have "\<dots> = ?n - (?N - ?n)"
    unfolding len by (rule dealt_byes)
  also have "\<dots> = 2 ^ ceillog2 ?N - ?N"
    using first_round_bounds(2,3,4)[OF N] by arith
  finally have count: "length (filter ?bye ?created) = 2 ^ ceillog2 ?N - ?N" by simp
  have slots: "(competitor1_id m \<noteq> None \<and> competitor2_id m = None \<and> winner_id m = competitor1_id m) \<or>
           (competitor1_id m = None \<and> competitor2_id m \<noteq> None \<and> winner_id m = competitor2_id m)"
    if "m \<in> set ?created" "status m = Some ''Completed (Bye)''" for m
  proof -
    have "\<not> later_row div_id rn (unlinked m)" for rn
      using that(2) by (simp add: later_row_def)
    with created_row_cases[OF N sh that(1)]
    obtain mid a sb where row: "unlinked m = round1_match mid div_id (Some a, sb)"
      by blast
    have "status (unlinked m) = Some ''Completed (Bye)''" using that(2) by simp
    then have sb: "sb = None"
      unfolding row by (simp add: round1_match_fields dealt_branch split: if_splits)
    have "competitor1_id (unlinked m) \<noteq> None \<and> competitor2_id (unlinked m) = None \<and>
        winner_id (unlinked m) = competitor1_id (unlinked m)"
      unfolding row sb by (simp add: round1_match_fields dealt_branch)
    then show ?thesis by simp
  qed
  from count slots show ?thesis by blast
qed

text \<open>The theorem at the divisions of three and of five competitors: one bye and three.\<close>

theorem byes_fill_the_bracket_witness:
  "length (filter (\<lambda>m. round_name m = Some ''Round 1'' \<and> status m = Some ''Completed (Bye)'')
      (matches (snd (generate_bracket (\<lambda>xs. xs) 1 (entrants 3))))) = 1 \<and>
   length (filter (\<lambda>m. round_name m = Some ''Round 1'' \<and> status m = Some ''Completed (Bye)'')
      (matches (snd (generate_bracket (\<lambda>xs. xs) 1 (entrants 5))))) = 3 \<and>
   list_all (\<lambda>m. status m \<noteq> Some ''Completed (Bye)'' \<or>
        competitor1_id m \<noteq> None \<and> competitor2_id m = None \<and> winner_id m = competitor1_id m \<or>
        competitor1_id m = None \<and> competitor2_id m \<noteq> None \<and> winner_id m = competitor2_id m)
      (matches (snd (generate_bracket (\<lambda>xs. xs) 1 (entrants 5))))"
proof -
  have sh: "\<forall>xs::competitor list. mset ((\<lambda>xs. xs) xs) = mset xs" by simp
  have n: "2 \<le> length (competitors_in 1 (entrants 3))" "2 \<le> length (competitors_in 1 (entrants 5))"
    by (simp_all add: entrants_count)
  have m: "matches (entrants k) = []" for k by (simp add: entrants_def)
  from byes_fill_the_bracket[OF n(1) sh] byes_fill_the_bracket[OF n(2) sh]
  show ?thesis
    by (simp add: entrants_count ceillog2_small m list_all_iff)
qed

text \<open>
  Claim C10. For a division of \<open>N \<ge> 2\<close> competitors the deal succeeds and every
  pairing it produces has its first slot filled, so no pairing takes the builder's
  second bye branch (only slot 2 filled); every round-1 match the call adds has
  \<^verbatim>\<open>competitor1_id\<close> set, and every bye it adds holds its lone competitor in slot 1,
  who is its winner.
\<close>

theorem first_pass_fills_slot1:
  assumes N: "2 \<le> length (competitors_in div_id d)"
    and sh: "\<forall>xs. mset (shuffle xs) = mset xs"
  shows "(\<exists>ps. deal (2 ^ ceillog2 (length (competitors_in div_id d)) div 2) 0
                (shuffle (competitors_in div_id d))
                (replicate (2 ^ ceillog2 (length (competitors_in div_id d)) div 2) (None, None)) = Inr ps \<and>
            (\<forall>p\<in>set ps. fst p \<noteq> None \<and> bye_branch p \<noteq> 2)) \<and>
     (\<forall>m\<in>set (drop (length (matches d)) (matches (snd (generate_bracket shuffle div_id d)))).
        (round_name m = Some ''Round 1'' \<longrightarrow> competitor1_id m \<noteq> None) \<and>
        (status m = Some ''Completed (Bye)'' \<longrightarrow>
           competitor1_id m \<noteq> None \<and> competitor2_id m = None \<and> winner_id m = competitor1_id m))"
proof -
  let ?n = "2 ^ ceillog2 (length (competitors_in div_id d)) div (2::nat)"
  let ?xs = "shuffle (competitors_in div_id d)"
  let ?ps = "map (\<lambda>j. (Some (?xs ! j), if ?n + j < length ?xs then Some (?xs ! (?n + j)) else None)) [0..<?n]"
  let ?created = "drop (length (matches d)) (matches (snd (generate_bracket shuffle div_id d)))"
  from generate_bracket_created[where shuffle = shuffle and div_id = div_id and d = d, OF N sh]
  have dl: "deal ?n 0 ?xs (replicate ?n (None, None)) = Inr ?ps" by blast
  have ps: "fst p \<noteq> None \<and> bye_branch p \<noteq> 2" if "p \<in> set ?ps" for p
  proof -
    from that obtain a sb where "p = (Some a, sb)" by (simp add: image_iff) blast
    then show ?thesis by (simp add: dealt_branch)
  qed
  have rows: "(round_name m = Some ''Round 1'' \<longrightarrow> competitor1_id m \<noteq> None) \<and>
        (status m = Some ''Completed (Bye)'' \<longrightarrow>
           competitor1_id m \<noteq> None \<and> competitor2_id m = None \<and> winner_id m = competitor1_id m)"
    if "m \<in> set ?created" for m
  proof -
    from created_row_cases[OF N sh that]
    consider mid a sb where "unlinked m = round1_match mid div_id (Some a, sb)"
      | rn where "later_row div_id rn (unlinked m)" "rn \<noteq> ''Round 1''"
      by blast
    then show ?thesis
    proof cases
      case 1
      have "competitor1_id (unlinked m) \<noteq> None \<and>
        (status (unlinked m) = Some ''Completed (Bye)'' \<longrightarrow>
           competitor2_id (unlinked m) = None \<and> winner_id (unlinked m) = competitor1_id (unlinked m))"
        unfolding 1 by (simp add: round1_match_fields dealt_branch)
      then show ?thesis by simp
    next
      case 2
      then have "round_name m \<noteq> Some ''Round 1''" "status m \<noteq> Some ''Completed (Bye)''"
        by (simp_all add: later_row_def)
      then show ?thesis by simp
    qed
  qed
  from dl ps rows show ?thesis by blast
qed

text \<open>The theorem at the division of five competitors.\<close>

theorem first_pass_fills_slot1_witness:
  "list_all (\<lambda>m. round_name m \<noteq> Some ''Round 1'' \<or> competitor1_id m \<noteq> None)
      (matches (snd (generate_bracket (\<lambda>xs. xs) 1 (entrants 5)))) \<and>
   list_all (\<lambda>m. status m \<noteq> Some ''Completed (Bye)'' \<or>
        competitor1_id m \<noteq> None \<and> competitor2_id m = None \<and> winner_id m = competitor1_id m)
      (matches (snd (generate_bracket (\<lambda>xs. xs) 1 (entrants 5))))"
proof -
  have sh: "\<forall>xs::competitor list. mset ((\<lambda>xs. xs) xs) = mset xs" by simp
  have n: "2 \<le> length (competitors_in 1 (entrants 5))"
    by (simp add: entrants_count)
  have m: "matches (entrants k) = []" for k by (simp add: entrants_def)
  from first_pass_fills_slot1[OF n sh]
  show ?thesis
    by (simp add: m list_all_iff)
qed

end
